theory Spec2Isabelle
  imports Complex_Main "HOL-Library.Log_Nat" "HOL-Library.Multiset"
begin

section \<open>Text: characters, digits, trim and split\<close>

text \<open>
  JavaScript strings are modelled as \<^typ>\<open>string\<close>; a character stands for a code unit below
  256. Within that range the white space that \<^verbatim>\<open>String.prototype.trim\<close> removes is TAB, LF,
  VT, FF, CR, SPACE and NO-BREAK SPACE.
\<close>

definition is_space :: "char \<Rightarrow> bool" where
  "is_space c \<longleftrightarrow> (of_char c :: nat) \<in> {9, 10, 11, 12, 13, 32, 160}"

definition trim :: "string \<Rightarrow> string" where
  "trim s = rev (dropWhile is_space (rev (dropWhile is_space s)))"

text \<open>\<^verbatim>\<open>s.split(',')\<close>: the pieces between the separators; the empty string gives one empty piece.\<close>

fun split_str :: "char \<Rightarrow> string \<Rightarrow> string list" where
  "split_str sep [] = [[]]"
| "split_str sep (c # cs) =
     (if c = sep then [] # split_str sep cs
      else (case split_str sep cs of [] \<Rightarrow> [[c]] | x # xs \<Rightarrow> (c # x) # xs))"

definition is_digit :: "char \<Rightarrow> bool" where
  "is_digit c \<longleftrightarrow> 48 \<le> (of_char c :: nat) \<and> (of_char c :: nat) \<le> 57"

text \<open>
  Digit strings denote integers (\<^typ>\<open>int\<close>, so that long literals evaluate in binary);
  \<open>digits_of_int\<close> is the decimal numeral of a non-negative integer.
\<close>

definition digit_of :: "char \<Rightarrow> int" where
  "digit_of c = int (of_char c) - 48"

definition digit_char :: "int \<Rightarrow> char" where
  "digit_char d = char_of (nat (48 + d))"

definition int_of_digits :: "string \<Rightarrow> int" where
  "int_of_digits ds = foldl (\<lambda>a c. 10 * a + digit_of c) 0 ds"

function digits_of_int :: "int \<Rightarrow> string" where
  "digits_of_int n =
     (if n < 10 then [digit_char n] else digits_of_int (n div 10) @ [digit_char (n mod 10)])"
  by pat_completeness auto
termination
  by (relation "measure nat") auto

declare digits_of_int.simps [simp del]

text \<open>The number of decimal digits of a positive integer (0 otherwise).\<close>

function declen :: "int \<Rightarrow> int" where
  "declen a = (if 0 < a then declen (a div 10) + 1 else 0)"
  by pat_completeness auto
termination
  by (relation "measure nat") auto

declare declen.simps [simp del]

section \<open>Numbers: IEEE 754 binary64 over the rationals\<close>

text \<open>
  A JavaScript Number is NaN, an infinity, or a finite double, kept here as the rational it
  denotes. The sign of zero is not kept: none of the conversions used by the program
  (\<^verbatim>\<open>toFixed\<close>, \<^verbatim>\<open>toString\<close>) prints it.
\<close>

datatype number = NaN | PosInf | NegInf | Fin rat

text \<open>
  The definitions of this section pass every intermediate value as an argument, so that
  each is evaluated once.
\<close>

definition nearest_even :: "rat \<Rightarrow> int \<Rightarrow> int" where
  "nearest_even q f =
     (if q - of_int f < 1/2 then f else if 1/2 < q - of_int f then f + 1
      else if even f then f else f + 1)"

definition round_half_even :: "rat \<Rightarrow> int" where
  "round_half_even q = nearest_even q \<lfloor>q\<rfloor>"

text \<open>For \<open>0 < q\<close>, \<open>binade q\<close> is the exponent \<open>e\<close> with \<open>2^e \<le> q < 2^(e+1)\<close>.\<close>

definition binade_from :: "rat \<Rightarrow> int \<Rightarrow> int" where
  "binade_from q k = (if 2 powi k \<le> q then k else k - 1)"

definition binade :: "rat \<Rightarrow> int" where
  "binade q = (case quotient_of q of (n, d) \<Rightarrow> binade_from q (bitlen n - bitlen d))"

text \<open>
  Rounding a real value to the nearest double, ties to even: 53 significant bits (the value
  is rounded to a multiple \<open>m * 2^(e-52)\<close> of the unit of its binade \<open>e\<close>), the exponent
  not below that of the subnormals, overflow to an infinity. The rounded magnitude reaches
  \<open>2^1024\<close> when \<open>e\<close> does, or when \<open>e = 1023\<close> and \<open>m\<close> is rounded up to \<open>2^53\<close>.
\<close>

definition fl_pack :: "rat \<Rightarrow> int \<Rightarrow> int \<Rightarrow> number" where
  "fl_pack q e m =
     (if 1024 \<le> e \<or> (e = 1023 \<and> 2 ^ 53 \<le> \<bar>m\<bar>) then (if q < 0 then NegInf else PosInf)
      else Fin (of_int m * 2 powi (e - 52)))"

definition fl_exp :: "rat \<Rightarrow> int \<Rightarrow> number" where
  "fl_exp q e = fl_pack q e (round_half_even (q / 2 powi (e - 52)))"

definition fl :: "rat \<Rightarrow> number" where
  "fl q = (if q = 0 then Fin 0 else fl_exp q (max (binade \<bar>q\<bar>) (- 1022)))"

fun num_add :: "number \<Rightarrow> number \<Rightarrow> number" where
  "num_add (Fin a) (Fin b) = fl (a + b)"
| "num_add NaN _ = NaN"
| "num_add _ NaN = NaN"
| "num_add PosInf NegInf = NaN"
| "num_add NegInf PosInf = NaN"
| "num_add PosInf _ = PosInf"
| "num_add NegInf _ = NegInf"
| "num_add _ PosInf = PosInf"
| "num_add _ NegInf = NegInf"

fun num_neg :: "number \<Rightarrow> number" where
  "num_neg (Fin a) = Fin (- a)"
| "num_neg NaN = NaN"
| "num_neg PosInf = NegInf"
| "num_neg NegInf = PosInf"

definition num_sub :: "number \<Rightarrow> number \<Rightarrow> number" where
  "num_sub a b = num_add a (num_neg b)"

text \<open>Division by an array length \<open>n\<close> (an integer below \<open>2^32\<close>, exact as a double).\<close>

fun num_div_nat :: "number \<Rightarrow> nat \<Rightarrow> number" where
  "num_div_nat NaN n = NaN"
| "num_div_nat (Fin a) n =
     (if n = 0 then (if a = 0 then NaN else if a < 0 then NegInf else PosInf)
      else fl (a / of_nat n))"
| "num_div_nat PosInf n = PosInf"
| "num_div_nat NegInf n = NegInf"

subsection \<open>\<^verbatim>\<open>Number.prototype.toString\<close>\<close>

text \<open>For \<open>0 < q\<close>, \<open>dec_exp q\<close> is the \<open>n\<close> with \<open>10^(n-1) \<le> q < 10^n\<close>.\<close>

definition dec_exp_from :: "rat \<Rightarrow> int \<Rightarrow> int" where
  "dec_exp_from q k = (if q < 10 powi k then k else k + 1)"

definition dec_exp :: "rat \<Rightarrow> int" where
  "dec_exp q = (case quotient_of q of (a, b) \<Rightarrow> dec_exp_from q (declen a - declen b))"

text \<open>
  The candidates for the positive double \<open>q\<close> among the multiples of \<open>u = 10^(n-k)\<close>, that
  is with \<open>k\<close> significant digits: the integers \<open>s\<close> next to \<open>q / u\<close> whose value \<open>s * u\<close>
  reads back as \<open>q\<close>, the closest one first.
\<close>

definition reads_back :: "rat \<Rightarrow> rat \<Rightarrow> int \<Rightarrow> bool" where
  "reads_back q u s \<longleftrightarrow> fl (of_int s * u) = Fin q"

definition nearer_first :: "rat \<Rightarrow> rat \<Rightarrow> int \<Rightarrow> int list" where
  "nearer_first q u lo =
     (if q - of_int lo * u < of_int (lo + 1) * u - q then [lo, lo + 1]
      else if of_int (lo + 1) * u - q < q - of_int lo * u then [lo + 1, lo]
      else if even lo then [lo, lo + 1] else [lo + 1, lo])"

definition candidates_unit :: "rat \<Rightarrow> rat \<Rightarrow> int list" where
  "candidates_unit q u = filter (reads_back q u) (nearer_first q u \<lfloor>q / u\<rfloor>)"

definition candidates :: "rat \<Rightarrow> int \<Rightarrow> nat \<Rightarrow> int list" where
  "candidates q n k = candidates_unit q (10 powi (n - int k))"

fun shortest :: "rat \<Rightarrow> int \<Rightarrow> nat \<Rightarrow> nat \<Rightarrow> int \<times> nat" where
  "shortest q n k 0 = (round_half_even (q / 10 powi (n - int k)), k)"
| "shortest q n k (Suc fuel) =
     (case candidates q n k of s # _ \<Rightarrow> (s, k) | [] \<Rightarrow> shortest q n (Suc k) fuel)"

text \<open>
  The digits \<open>s\<close>, their number \<open>k\<close> and the decimal exponent \<open>n\<close> of ECMAScript's
  \<^verbatim>\<open>Number::toString\<close>: \<open>k\<close> as small as possible, 17 digits always being enough. A
  candidate \<open>10^k\<close> is the single digit 1 of the next decade.
\<close>

fun normal_digits :: "int \<Rightarrow> int \<times> nat \<Rightarrow> int \<times> nat \<times> int" where
  "normal_digits n (s, k) = (if s = 10 ^ k then (10 ^ (k - 1), k, n + 1) else (s, k, n))"

definition digits_from :: "rat \<Rightarrow> int \<Rightarrow> int \<times> nat \<times> int" where
  "digits_from q n = normal_digits n (shortest q n 1 16)"

definition shortest_digits :: "rat \<Rightarrow> int \<times> nat \<times> int" where
  "shortest_digits q = digits_from q (dec_exp q)"

definition exponent_text :: "int \<Rightarrow> string" where
  "exponent_text e = CHR ''e'' # (if e < 0 then CHR ''-'' else CHR ''+'') # digits_of_int \<bar>e\<bar>"

definition layout :: "string \<Rightarrow> nat \<Rightarrow> int \<Rightarrow> string" where
  "layout ds k n =
     (if int k \<le> n \<and> n \<le> 21 then ds @ replicate (nat (n - int k)) CHR ''0''
      else if 0 < n \<and> n \<le> 21 then take (nat n) ds @ ''.'' @ drop (nat n) ds
      else if - 6 < n \<and> n \<le> 0 then ''0.'' @ replicate (nat (- n)) CHR ''0'' @ ds
      else if k = 1 then ds @ exponent_text (n - 1)
      else take 1 ds @ ''.'' @ drop 1 ds @ exponent_text (n - 1))"

fun render_digits :: "int \<times> nat \<times> int \<Rightarrow> string" where
  "render_digits (s, k, n) = layout (digits_of_int s) k n"

definition render_positive :: "rat \<Rightarrow> string" where
  "render_positive q = render_digits (shortest_digits q)"

fun toString :: "number \<Rightarrow> string" where
  "toString NaN = ''NaN''"
| "toString PosInf = ''Infinity''"
| "toString NegInf = ''-Infinity''"
| "toString (Fin q) =
     (if q = 0 then ''0'' else if q < 0 then CHR ''-'' # render_positive (- q)
      else render_positive q)"

subsection \<open>\<^verbatim>\<open>Number.prototype.toFixed(2)\<close>\<close>

text \<open>
  \<open>toFixed(2)\<close> takes the integer \<open>n\<close> for which \<open>n / 100\<close> is closest to the magnitude of
  the double, the larger one of two, and prints it with two fractional digits; from
  \<open>10^21\<close> on it prints as \<open>toString\<close> does.
\<close>

definition cents_text :: "int \<Rightarrow> string" where
  "cents_text n =
     digits_of_int (n div 100) @ ''.'' @ [digit_char (n mod 100 div 10), digit_char (n mod 10)]"

fun toFixed2 :: "number \<Rightarrow> string" where
  "toFixed2 (Fin q) =
     (if 10 ^ 21 \<le> \<bar>q\<bar> then toString (Fin q)
      else (if q < 0 then ''-'' else '''') @ cents_text \<lfloor>\<bar>q\<bar> * 100 + 1/2\<rfloor>)"
| "toFixed2 x = toString x"

subsection \<open>\<^verbatim>\<open>parseFloat\<close>\<close>

text \<open>
  \<^verbatim>\<open>parseFloat\<close> skips leading white space and reads the longest prefix that is a decimal
  literal: a sign, \<^verbatim>\<open>Infinity\<close> or digits with an optional point and an optional exponent.
  Without such a prefix the result is NaN.
\<close>

definition exponent_part :: "string \<Rightarrow> int" where
  "exponent_part r =
     (case r of [] \<Rightarrow> 0
      | c # r1 \<Rightarrow>
          if c = CHR ''e'' \<or> c = CHR ''E'' then
            (let (neg, r2) = (case r1 of [] \<Rightarrow> (False, r1)
                               | d # r3 \<Rightarrow> if d = CHR ''-'' then (True, r3)
                                          else if d = CHR ''+'' then (False, r3) else (False, r1));
                 ds = takeWhile is_digit r2
             in if ds = [] then 0
                else if neg then - int_of_digits ds else int_of_digits ds)
          else 0)"

definition decimal_prefix :: "string \<Rightarrow> rat option" where
  "decimal_prefix u =
     (let ds1 = takeWhile is_digit u; r1 = dropWhile is_digit u;
          (ds2, r2) = (case r1 of [] \<Rightarrow> ([], r1)
                       | c # r \<Rightarrow> if c = CHR ''.'' then (takeWhile is_digit r, dropWhile is_digit r)
                                  else ([], r1))
      in if ds1 = [] \<and> ds2 = [] then None
         else Some (of_int (int_of_digits (ds1 @ ds2)) * 10 powi (exponent_part r2 - int (length ds2))))"

definition parseFloat :: "string \<Rightarrow> number" where
  "parseFloat s =
     (let t = dropWhile is_space s;
          (neg, u) = (case t of [] \<Rightarrow> (False, t)
                      | c # r \<Rightarrow> if c = CHR ''-'' then (True, r)
                                 else if c = CHR ''+'' then (False, r) else (False, t))
      in if take 8 u = ''Infinity'' then (if neg then NegInf else PosInf)
         else (case decimal_prefix u of None \<Rightarrow> NaN
               | Some q \<Rightarrow> fl (if neg then - q else q)))"

section \<open>The \<^verbatim>\<open>decimal(12, 2)\<close> columns\<close>

text \<open>
  \<^verbatim>\<open>balance\<close>, \<^verbatim>\<open>amount\<close> and \<^verbatim>\<open>share_amount\<close> are declared
  \<^verbatim>\<open>decimal(..., { precision: 12, scale: 2 })\<close>: PostgreSQL \<^verbatim>\<open>numeric(12,2)\<close>, which the
  driver writes and reads as text. The server (version 16 or later) first reads the text of
  a parameter as a \<^verbatim>\<open>numeric\<close> and then coerces the value to the column.

  \<^item> The text is a literal with blanks around it: \<^verbatim>\<open>NaN\<close>, or a sign followed by digits with
    an optional point and an optional exponent, or a sign followed by an integer in
    hexadecimal, octal or binary notation (\<^verbatim>\<open>0x\<close>, \<^verbatim>\<open>0o\<close>, \<^verbatim>\<open>0b\<close>). Single underscores
    may separate digits.
  \<^item> A decimal literal is refused when its exponent exceeds \<open>2^30 - 1\<close> in magnitude or when
    its scale, the number of fractional digits less the exponent, exceeds 16383.
  \<^item> The coercion rounds to two fractional digits, half away from zero, and refuses what
    needs more than ten integer digits. The infinities, which the server reads, do not fit
    a column with a precision; they are refused with everything else that is not read.
\<close>

definition pg_space :: "char \<Rightarrow> bool" where
  "pg_space c \<longleftrightarrow> (of_char c :: nat) \<in> {9, 10, 11, 12, 13, 32}"

definition pg_exponent :: "string \<Rightarrow> int option" where
  "pg_exponent r =
     (case r of [] \<Rightarrow> Some 0
      | c # r1 \<Rightarrow>
          if c = CHR ''e'' \<or> c = CHR ''E'' then
            (let (neg, r2) = (case r1 of [] \<Rightarrow> (False, r1)
                               | d # r3 \<Rightarrow> if d = CHR ''-'' then (True, r3)
                                          else if d = CHR ''+'' then (False, r3) else (False, r1))
             in if r2 = [] \<or> \<not> list_all is_digit r2 then None
                else Some (if neg then - int_of_digits r2 else int_of_digits r2))
          else None)"

text \<open>
  The value of digits with an optional point and an optional exponent, up to the end of the
  text.
\<close>

definition unsigned_literal :: "string \<Rightarrow> rat option" where
  "unsigned_literal u =
     (let ds1 = takeWhile is_digit u; r1 = dropWhile is_digit u;
          (ds2, r2) = (case r1 of [] \<Rightarrow> ([], r1)
                       | c # r \<Rightarrow> if c = CHR ''.'' then (takeWhile is_digit r, dropWhile is_digit r)
                                  else ([], r1))
      in if ds1 = [] \<and> ds2 = [] then None
         else (case pg_exponent r2 of None \<Rightarrow> None
               | Some ex \<Rightarrow>
                   Some (of_int (int_of_digits (ds1 @ ds2)) * 10 powi (ex - int (length ds2)))))"

definition numeric_literal :: "string \<Rightarrow> rat option" where
  "numeric_literal t =
     (case t of [] \<Rightarrow> None
      | c # r \<Rightarrow> if c = CHR ''-'' then map_option uminus (unsigned_literal r)
                 else if c = CHR ''+'' then unsigned_literal r else unsigned_literal t)"

text \<open>
  An underscore stands between two decimal digits; \<open>underscores_ok p u\<close> checks the text
  \<open>u\<close> that follows the character \<open>p\<close>.
\<close>

fun underscores_ok :: "char \<Rightarrow> string \<Rightarrow> bool" where
  "underscores_ok p [] \<longleftrightarrow> True"
| "underscores_ok p (c # r) \<longleftrightarrow>
     (if c = CHR ''_'' then is_digit p \<and> (case r of [] \<Rightarrow> False | d # _ \<Rightarrow> is_digit d) else True)
     \<and> underscores_ok c r"

text \<open>A decimal literal without underscores, within the limits of exponent and scale.\<close>

definition pg_decimal :: "string \<Rightarrow> rat option" where
  "pg_decimal u =
     (let r1 = dropWhile is_digit u;
          (ds2, r2) = (case r1 of [] \<Rightarrow> ([], r1)
                       | c # r \<Rightarrow> if c = CHR ''.'' then (takeWhile is_digit r, dropWhile is_digit r)
                                  else ([], r1))
      in (case pg_exponent r2 of None \<Rightarrow> None
          | Some ex \<Rightarrow>
              if 1073741823 < \<bar>ex\<bar> \<or> 16383 < int (length ds2) - ex then None
              else unsigned_literal u))"

text \<open>
  The integers in another base: after the prefix, digits of the base, each of which may
  follow one underscore; at least one digit.
\<close>

definition pg_radix :: "char \<Rightarrow> nat option" where
  "pg_radix c =
     (if c = CHR ''x'' \<or> c = CHR ''X'' then Some 16
      else if c = CHR ''o'' \<or> c = CHR ''O'' then Some 8
      else if c = CHR ''b'' \<or> c = CHR ''B'' then Some 2 else None)"

definition radix_digit :: "nat \<Rightarrow> char \<Rightarrow> int option" where
  "radix_digit base c =
     (let n = (of_char c :: nat);
          v = (if 48 \<le> n \<and> n \<le> 57 then Some (n - 48)
               else if 97 \<le> n \<and> n \<le> 102 then Some (n - 87)
               else if 65 \<le> n \<and> n \<le> 70 then Some (n - 55) else None)
      in (case v of None \<Rightarrow> None | Some d \<Rightarrow> if d < base then Some (int d) else None))"

fun radix_digits :: "nat \<Rightarrow> string \<Rightarrow> int list option" where
  "radix_digits base [] = Some []"
| "radix_digits base (c # r) =
     (case radix_digit base c of
        Some d \<Rightarrow> map_option ((#) d) (radix_digits base r)
      | None \<Rightarrow>
          if c = CHR ''_'' then
            (case r of [] \<Rightarrow> None
             | c' # r' \<Rightarrow>
                 (case radix_digit base c' of None \<Rightarrow> None
                  | Some d \<Rightarrow> map_option ((#) d) (radix_digits base r')))
          else None)"

definition pg_non_decimal :: "nat \<Rightarrow> string \<Rightarrow> rat option" where
  "pg_non_decimal base body =
     (case radix_digits base body of None \<Rightarrow> None
      | Some ds \<Rightarrow>
          if ds = [] then None else Some (of_int (foldl (\<lambda>a d. a * int base + d) 0 ds)))"

text \<open>The literal after its sign, and the signed literal.\<close>

definition pg_unsigned :: "string \<Rightarrow> rat option" where
  "pg_unsigned u =
     (case (case u of z # c # body \<Rightarrow>
                    if z = CHR ''0'' then map_option (\<lambda>base. (base, body)) (pg_radix c) else None
            | _ \<Rightarrow> None) of
        Some (base, body) \<Rightarrow> pg_non_decimal base body
      | None \<Rightarrow>
          if underscores_ok CHR ''_'' u then pg_decimal (filter (\<lambda>c. c \<noteq> CHR ''_'') u)
          else None)"

definition numeric_in :: "string \<Rightarrow> rat option" where
  "numeric_in t =
     (case t of [] \<Rightarrow> None
      | c # r \<Rightarrow> if c = CHR ''-'' then map_option uminus (pg_unsigned r)
                 else if c = CHR ''+'' then pg_unsigned r else pg_unsigned t)"

definition round_half_away :: "rat \<Rightarrow> int" where
  "round_half_away q = (if q < 0 then - \<lfloor>- q + 1/2\<rfloor> else \<lfloor>q + 1/2\<rfloor>)"

text \<open>The text of a value of the column, given in hundredths.\<close>

definition numeric_out :: "int \<Rightarrow> string" where
  "numeric_out c = (if c < 0 then ''-'' else []) @ cents_text \<bar>c\<bar>"

definition lower :: "char \<Rightarrow> char" where
  "lower c = (if 65 \<le> (of_char c :: nat) \<and> (of_char c :: nat) \<le> 90
              then char_of ((of_char c :: nat) + 32) else c)"

definition numeric_12_2 :: "string \<Rightarrow> string option" where
  "numeric_12_2 s =
     (let t = rev (dropWhile pg_space (rev (dropWhile pg_space s)))
      in if map lower t = ''nan'' then Some ''NaN''
         else (case numeric_in t of None \<Rightarrow> None
               | Some q \<Rightarrow>
                   let c = round_half_away (q * 100)
                   in if \<bar>c\<bar> < 10 ^ 12 then Some (numeric_out c) else None))"

text \<open>
  A text parameter (\<^verbatim>\<open>text\<close>, \<^verbatim>\<open>varchar\<close>): the server refuses a string that holds the
  character NUL.
\<close>

definition pg_text :: "string \<Rightarrow> bool" where
  "pg_text t \<longleftrightarrow> CHR 0x00 \<notin> set t"

section \<open>Tables and rows\<close>

text \<open>
  The five tables of the schema, without \<^verbatim>\<open>users\<close>: the acting principal is the identifier
  that the session supplies. A table is the list of its rows in insertion order. The
  identifiers that \<^verbatim>\<open>gen_random_uuid()\<close> draws are modelled by a counter, \<^verbatim>\<open>now()\<close> by a
  clock that the operations read and do not advance.
\<close>

record bank_account =
  ba_id :: string
  ba_userId :: string
  ba_name :: string
  ba_type :: string
  ba_balance :: string
  ba_createdAt :: nat

record transaction_row =
  tx_id :: string
  tx_accountId :: string
  tx_amount :: string
  tx_type :: string
  tx_description :: string
  tx_date :: nat
  tx_createdAt :: nat

record split_expense =
  se_id :: string
  se_userId :: string
  se_payerName :: string
  se_amount :: string
  se_description :: string
  se_date :: nat
  se_createdAt :: nat

record split_participant =
  sp_id :: string
  sp_expenseId :: string
  sp_name :: string
  sp_shareAmount :: string

record db =
  bankAccounts :: "bank_account list"
  transactions :: "transaction_row list"
  splitExpenses :: "split_expense list"
  splitParticipants :: "split_participant list"
  next_uuid :: nat
  clock :: nat

definition uuid :: "nat \<Rightarrow> string" where
  "uuid n = ''id-'' @ digits_of_int (int n)"

datatype error = ZodError | Forbidden | TypeError | DbError

type_synonym 'a result = "db \<times> (error + 'a)"

section \<open>Request bodies and the insert schemas\<close>

datatype json = JNull | JBool bool | JNumber rat | JString string
  | JArray "json list" | JObject "(string \<times> json) list"

type_synonym body = "(string \<times> json) list"

record insert_bank_account =
  iba_name :: string
  iba_type :: "string option"
  iba_balance :: "string option"

record insert_transaction =
  it_accountId :: string
  it_amount :: string
  it_type :: string
  it_description :: string

record insert_split_expense =
  ise_payerName :: string
  ise_amount :: string
  ise_description :: string

record partial_split_expense =
  pse_payerName :: "string option"
  pse_amount :: "string option"
  pse_description :: "string option"

record insert_split_participant =
  isp_name :: string
  isp_shareAmount :: string

text \<open>
  \<^verbatim>\<open>createInsertSchema(table).pick({...})\<close>: every picked column is a text or decimal column
  and becomes \<^verbatim>\<open>z.string()\<close>, required unless the column has a default; keys that are not
  picked are dropped. No schema constrains the content of a string.
\<close>

fun z_string :: "json option \<Rightarrow> string option" where
  "z_string (Some (JString v)) = Some v"
| "z_string _ = None"

fun z_string_optional :: "json option \<Rightarrow> string option option" where
  "z_string_optional None = Some None"
| "z_string_optional (Some (JString v)) = Some (Some v)"
| "z_string_optional _ = None"

definition insertBankAccountSchema :: "body \<Rightarrow> error + insert_bank_account" where
  "insertBankAccountSchema b =
     (case (z_string (map_of b ''name''), z_string_optional (map_of b ''type''),
            z_string_optional (map_of b ''balance'')) of
        (Some n, Some t, Some bal) \<Rightarrow> Inr \<lparr>iba_name = n, iba_type = t, iba_balance = bal\<rparr>
      | _ \<Rightarrow> Inl ZodError)"

definition insertTransactionSchema :: "body \<Rightarrow> error + insert_transaction" where
  "insertTransactionSchema b =
     (case (z_string (map_of b ''accountId''), z_string (map_of b ''amount''),
            z_string (map_of b ''type''), z_string (map_of b ''description'')) of
        (Some a, Some m, Some t, Some d) \<Rightarrow>
          Inr \<lparr>it_accountId = a, it_amount = m, it_type = t, it_description = d\<rparr>
      | _ \<Rightarrow> Inl ZodError)"

definition insertSplitExpenseSchema :: "body \<Rightarrow> error + insert_split_expense" where
  "insertSplitExpenseSchema b =
     (case (z_string (map_of b ''payerName''), z_string (map_of b ''amount''),
            z_string (map_of b ''description'')) of
        (Some p, Some m, Some d) \<Rightarrow>
          Inr \<lparr>ise_payerName = p, ise_amount = m, ise_description = d\<rparr>
      | _ \<Rightarrow> Inl ZodError)"

definition insertSplitExpenseSchema_partial :: "body \<Rightarrow> error + partial_split_expense" where
  "insertSplitExpenseSchema_partial b =
     (case (z_string_optional (map_of b ''payerName''), z_string_optional (map_of b ''amount''),
            z_string_optional (map_of b ''description'')) of
        (Some p, Some m, Some d) \<Rightarrow>
          Inr \<lparr>pse_payerName = p, pse_amount = m, pse_description = d\<rparr>
      | _ \<Rightarrow> Inl ZodError)"

section \<open>\<^verbatim>\<open>DatabaseStorage\<close>\<close>

text \<open>
  Every method takes the database and returns the database it leaves behind together with
  its outcome: \<open>Inl\<close> is the exception thrown (or, for a route, the refusal sent), \<open>Inr\<close>
  the value returned. A statement that the server refuses throws \<open>DbError\<close> and writes
  nothing: a text parameter that holds NUL, a decimal column that cannot read its text, a
  foreign key without its row, more than 65535 parameters (the protocol counts them in
  16 bits). The table \<^verbatim>\<open>users\<close> is not kept: the identifier of the user is taken to be
  that of one of its rows.
\<close>

definition createBankAccount :: "string \<Rightarrow> insert_bank_account \<Rightarrow> db \<Rightarrow> bank_account result" where
  "createBankAccount userId account s =
     (case numeric_12_2 (case iba_balance account of None \<Rightarrow> ''0'' | Some b \<Rightarrow> b) of
        None \<Rightarrow> (s, Inl DbError)
      | Some bal \<Rightarrow>
          if \<not> pg_text userId \<or> \<not> pg_text (iba_name account)
             \<or> \<not> pg_text (case iba_type account of None \<Rightarrow> ''savings'' | Some t \<Rightarrow> t)
          then (s, Inl DbError)
          else
            let bankAccount = \<lparr>ba_id = uuid (next_uuid s), ba_userId = userId,
                   ba_name = iba_name account,
                   ba_type = (case iba_type account of None \<Rightarrow> ''savings'' | Some t \<Rightarrow> t),
                   ba_balance = bal, ba_createdAt = clock s\<rparr>
            in (s\<lparr>bankAccounts := bankAccounts s @ [bankAccount],
                  next_uuid := Suc (next_uuid s)\<rparr>, Inr bankAccount))"

text \<open>\<^verbatim>\<open>getBankAccount\<close> only reads: it returns its outcome alone.\<close>

definition getBankAccount :: "string \<Rightarrow> db \<Rightarrow> error + bank_account option" where
  "getBankAccount ident s =
     (if pg_text ident then Inr (find (\<lambda>a. ba_id a = ident) (bankAccounts s)) else Inl DbError)"

definition updateBankAccountBalance :: "string \<Rightarrow> string \<Rightarrow> db \<Rightarrow> unit result" where
  "updateBankAccountBalance accountId newBalance s =
     (case numeric_12_2 newBalance of
        None \<Rightarrow> (s, Inl DbError)
      | Some bal \<Rightarrow>
          if \<not> pg_text accountId then (s, Inl DbError)
          else
            (s\<lparr>bankAccounts :=
                 map (\<lambda>a. if ba_id a = accountId then a\<lparr>ba_balance := bal\<rparr> else a) (bankAccounts s)\<rparr>,
             Inr ()))"

text \<open>The \<^verbatim>\<open>insert(transactions).values(transaction).returning()\<close> of \<^verbatim>\<open>createTransaction\<close>.\<close>

definition insert_transaction_row :: "insert_transaction \<Rightarrow> db \<Rightarrow> transaction_row result" where
  "insert_transaction_row t s =
     (case (find (\<lambda>a. ba_id a = it_accountId t) (bankAccounts s), numeric_12_2 (it_amount t)) of
        (Some _, Some amt) \<Rightarrow>
          if \<not> pg_text (it_accountId t) \<or> \<not> pg_text (it_type t) \<or> \<not> pg_text (it_description t)
          then (s, Inl DbError)
          else
            let newTransaction = \<lparr>tx_id = uuid (next_uuid s), tx_accountId = it_accountId t,
                   tx_amount = amt, tx_type = it_type t, tx_description = it_description t,
                   tx_date = clock s, tx_createdAt = clock s\<rparr>
            in (s\<lparr>transactions := transactions s @ [newTransaction],
                  next_uuid := Suc (next_uuid s)\<rparr>, Inr newTransaction)
      | _ \<Rightarrow> (s, Inl DbError))"

text \<open>The new balance that \<^verbatim>\<open>createTransaction\<close> computes for the account it has read.\<close>

definition newBalance :: "bank_account \<Rightarrow> insert_transaction \<Rightarrow> number" where
  "newBalance account t =
     (let currentBalance = parseFloat (ba_balance account);
          transactionAmount = parseFloat (it_amount t)
      in if it_type t = ''credit'' then num_add currentBalance transactionAmount
         else num_sub currentBalance transactionAmount)"

definition createTransaction :: "insert_transaction \<Rightarrow> db \<Rightarrow> transaction_row result" where
  "createTransaction t s =
     (case insert_transaction_row t s of
        (s1, Inl e) \<Rightarrow> (s1, Inl e)
      | (s1, Inr newTransaction) \<Rightarrow>
          (case getBankAccount (it_accountId t) s1 of
             Inl e \<Rightarrow> (s1, Inl e)
           | Inr None \<Rightarrow> (s1, Inr newTransaction)
           | Inr (Some account) \<Rightarrow>
               (case updateBankAccountBalance (it_accountId t)
                       (toString (newBalance account t)) s1 of
                  (s2, Inl e) \<Rightarrow> (s2, Inl e)
                | (s2, Inr _) \<Rightarrow> (s2, Inr newTransaction))))"

definition deleteTransaction :: "string \<Rightarrow> db \<Rightarrow> unit result" where
  "deleteTransaction ident s =
     (if \<not> pg_text ident then (s, Inl DbError)
      else (s\<lparr>transactions := filter (\<lambda>t. tx_id t \<noteq> ident) (transactions s)\<rparr>, Inr ()))"

definition createSplitExpense :: "string \<Rightarrow> insert_split_expense \<Rightarrow> db \<Rightarrow> split_expense result" where
  "createSplitExpense userId expense s =
     (case numeric_12_2 (ise_amount expense) of
        None \<Rightarrow> (s, Inl DbError)
      | Some amt \<Rightarrow>
          if \<not> pg_text userId \<or> \<not> pg_text (ise_payerName expense)
             \<or> \<not> pg_text (ise_description expense)
          then (s, Inl DbError)
          else
            let splitExpense = \<lparr>se_id = uuid (next_uuid s), se_userId = userId,
                   se_payerName = ise_payerName expense, se_amount = amt,
                   se_description = ise_description expense,
                   se_date = clock s, se_createdAt = clock s\<rparr>
            in (s\<lparr>splitExpenses := splitExpenses s @ [splitExpense],
                  next_uuid := Suc (next_uuid s)\<rparr>, Inr splitExpense))"

text \<open>
  One row of the multi-row insert of \<^verbatim>\<open>createSplitParticipants\<close>; the rows take consecutive
  identifiers. The query builder refuses an empty list of values. The statement binds three
  parameters for every row (\<^verbatim>\<open>expense_id\<close>, \<^verbatim>\<open>name\<close>, \<^verbatim>\<open>share_amount\<close>), so that it is
  refused from 21846 rows on.
\<close>

definition participant_row :: "string \<Rightarrow> nat \<Rightarrow> insert_split_participant \<Rightarrow> split_participant option" where
  "participant_row expenseId n p =
     (case numeric_12_2 (isp_shareAmount p) of
        None \<Rightarrow> None
      | Some sh \<Rightarrow>
          if pg_text (isp_name p)
          then Some \<lparr>sp_id = uuid n, sp_expenseId = expenseId, sp_name = isp_name p,
                     sp_shareAmount = sh\<rparr>
          else None)"

definition createSplitParticipants ::
  "string \<Rightarrow> insert_split_participant list \<Rightarrow> db \<Rightarrow> split_participant list result" where
  "createSplitParticipants expenseId participants s =
     (if participants = [] \<or> 65535 < 3 * int (length participants) \<or> \<not> pg_text expenseId
         \<or> find (\<lambda>e. se_id e = expenseId) (splitExpenses s) = None
      then (s, Inl DbError)
      else (case those (map (\<lambda>(n, p). participant_row expenseId n p)
                          (zip [next_uuid s ..< next_uuid s + length participants] participants)) of
              None \<Rightarrow> (s, Inl DbError)
            | Some rows \<Rightarrow>
                (s\<lparr>splitParticipants := splitParticipants s @ rows,
                   next_uuid := next_uuid s + length participants\<rparr>, Inr rows)))"

text \<open>\<^verbatim>\<open>update(splitExpenses).set(expense)\<close>: the builder refuses an object without values.\<close>

definition updateSplitExpense :: "string \<Rightarrow> partial_split_expense \<Rightarrow> db \<Rightarrow> unit result" where
  "updateSplitExpense ident expense s =
     (if pse_payerName expense = None \<and> pse_amount expense = None \<and> pse_description expense = None
      then (s, Inl DbError)
      else if \<not> pg_text ident
              \<or> \<not> pg_text (case pse_payerName expense of None \<Rightarrow> [] | Some p \<Rightarrow> p)
              \<or> \<not> pg_text (case pse_description expense of None \<Rightarrow> [] | Some d \<Rightarrow> d)
      then (s, Inl DbError)
      else (case (case pse_amount expense of None \<Rightarrow> Some None
                  | Some m \<Rightarrow> map_option Some (numeric_12_2 m)) of
              None \<Rightarrow> (s, Inl DbError)
            | Some amt \<Rightarrow>
                (s\<lparr>splitExpenses :=
                     map (\<lambda>e. if se_id e = ident
                               then e\<lparr>se_payerName := (case pse_payerName expense of
                                                         None \<Rightarrow> se_payerName e | Some p \<Rightarrow> p),
                                      se_amount := (case amt of None \<Rightarrow> se_amount e | Some m \<Rightarrow> m),
                                      se_description := (case pse_description expense of
                                                           None \<Rightarrow> se_description e | Some d \<Rightarrow> d)\<rparr>
                               else e) (splitExpenses s)\<rparr>,
                 Inr ())))"

text \<open>Deleting an expense deletes its participants: \<^verbatim>\<open>onDelete: "cascade"\<close>.\<close>

definition deleteSplitExpense :: "string \<Rightarrow> db \<Rightarrow> unit result" where
  "deleteSplitExpense ident s =
     (if \<not> pg_text ident then (s, Inl DbError)
      else if find (\<lambda>e. se_id e = ident) (splitExpenses s) = None then (s, Inr ())
      else (s\<lparr>splitExpenses := filter (\<lambda>e. se_id e \<noteq> ident) (splitExpenses s),
              splitParticipants := filter (\<lambda>p. sp_expenseId p \<noteq> ident) (splitParticipants s)\<rparr>,
            Inr ()))"

section \<open>The routes\<close>

text \<open>
  Each route is given the identifier of the authenticated user (\<^verbatim>\<open>req.user.id\<close>), the
  path parameter where it has one, and the request body.
\<close>

definition post_accounts :: "string \<Rightarrow> body \<Rightarrow> db \<Rightarrow> bank_account result" where
  "post_accounts user b s =
     (case insertBankAccountSchema b of
        Inl e \<Rightarrow> (s, Inl e)
      | Inr validatedData \<Rightarrow> createBankAccount user validatedData s)"

definition post_transactions :: "string \<Rightarrow> body \<Rightarrow> db \<Rightarrow> transaction_row result" where
  "post_transactions user b s =
     (case insertTransactionSchema b of
        Inl e \<Rightarrow> (s, Inl e)
      | Inr validatedData \<Rightarrow>
          (case getBankAccount (it_accountId validatedData) s of
             Inl e \<Rightarrow> (s, Inl e)
           | Inr None \<Rightarrow> (s, Inl Forbidden)
           | Inr (Some account) \<Rightarrow>
               if ba_userId account \<noteq> user then (s, Inl Forbidden)
               else createTransaction validatedData s))"

definition delete_transactions :: "string \<Rightarrow> string \<Rightarrow> db \<Rightarrow> unit result" where
  "delete_transactions user ident s = deleteTransaction ident s"

record calculations =
  totalAmount :: number
  sharePerPerson :: number
  owedToPayer :: "(string \<times> number) list"

record split_response =
  sr_splitExpense :: split_expense
  sr_participants :: "insert_split_participant list"
  sr_calculations :: calculations

definition post_split_expense :: "string \<Rightarrow> body \<Rightarrow> db \<Rightarrow> split_response result" where
  "post_split_expense user b s =
     (case insertSplitExpenseSchema b of
        Inl e \<Rightarrow> (s, Inl e)
      | Inr validatedExpenseData \<Rightarrow>
          (case createSplitExpense user validatedExpenseData s of
             (s1, Inl e) \<Rightarrow> (s1, Inl e)
           | (s1, Inr splitExpense) \<Rightarrow>
               (case map_of b ''participants'' of
                  Some (JString participants) \<Rightarrow>
                    let participantNames = map trim (split_str CHR '','' participants);
                        shareAmount = toFixed2 (num_div_nat (parseFloat (ise_amount validatedExpenseData))
                                                  (length participantNames));
                        splitParticipants = map (\<lambda>name. \<lparr>isp_name = name, isp_shareAmount = shareAmount\<rparr>)
                                              participantNames
                    in (case createSplitParticipants (se_id splitExpense) splitParticipants s1 of
                          (s2, Inl e) \<Rightarrow> (s2, Inl e)
                        | (s2, Inr _) \<Rightarrow>
                            (s2, Inr \<lparr>sr_splitExpense = splitExpense,
                                      sr_participants = splitParticipants,
                                      sr_calculations =
                                        \<lparr>totalAmount = parseFloat (ise_amount validatedExpenseData),
                                         sharePerPerson = parseFloat shareAmount,
                                         owedToPayer =
                                           map (\<lambda>name. (name, parseFloat shareAmount))
                                             (filter (\<lambda>name. name \<noteq> ise_payerName validatedExpenseData)
                                                participantNames)\<rparr>\<rparr>))
                | _ \<Rightarrow> (s1, Inl TypeError))))"

definition put_split_history :: "string \<Rightarrow> string \<Rightarrow> body \<Rightarrow> db \<Rightarrow> unit result" where
  "put_split_history user ident b s =
     (case insertSplitExpenseSchema_partial b of
        Inl e \<Rightarrow> (s, Inl e)
      | Inr validatedData \<Rightarrow> updateSplitExpense ident validatedData s)"

definition delete_split_history :: "string \<Rightarrow> string \<Rightarrow> db \<Rightarrow> unit result" where
  "delete_split_history user ident s = deleteSplitExpense ident s"

definition empty_db :: db where
  "empty_db = \<lparr>bankAccounts = [], transactions = [], splitExpenses = [], splitParticipants = [],
               next_uuid = 0, clock = 0\<rparr>"

section \<open>Specification-side definitions and example data\<close>

text \<open>
  The specification's share of an equal split: \<open>round(amount / count, 2 decimal places)\<close>
  by standard rounding (a half goes away from zero), as text with two fractional digits.
\<close>

definition spec_shareAmount :: "rat \<Rightarrow> nat \<Rightarrow> string" where
  "spec_shareAmount amount n = numeric_out (round_half_away (amount / of_nat n * 100))"

text \<open>
  An amount of \<open>ca\<close> hundredths split \<open>n\<close> ways lies exactly halfway between two
  hundredths when \<open>2 ca\<close> is an odd multiple of \<open>n\<close>.
\<close>

definition half_cent_tie :: "int \<Rightarrow> nat \<Rightarrow> bool" where
  "half_cent_tie ca n \<longleftrightarrow> (2 * ca) mod (2 * int n) = int n"

text \<open>A sequence of calls of the transaction route by one user, each on the database left by the one before.\<close>

fun post_all_transactions :: "string \<Rightarrow> body list \<Rightarrow> db \<Rightarrow> db" where
  "post_all_transactions user [] s = s"
| "post_all_transactions user (b # bs) s =
     post_all_transactions user bs (fst (post_transactions user b s))"

text \<open>
  The amount of a request for the account \<open>acc\<close>, in hundredths and with its sign: positive
  for a credit, negative for any other type. It is defined for a request that passes the
  schema, whose type and description are texts without NUL, and whose amount is a
  positive decimal literal below \<open>10^10\<close> with at most two fractional digits, written in
  at most 16000 characters.
\<close>

definition signed_cents :: "string \<Rightarrow> body \<Rightarrow> int option" where
  "signed_cents acc b =
     (case insertTransactionSchema b of
        Inl _ \<Rightarrow> None
      | Inr t \<Rightarrow>
          (case numeric_literal (it_amount t) of
             None \<Rightarrow> None
           | Some q \<Rightarrow>
               if it_accountId t = acc \<and> pg_text (it_type t) \<and> pg_text (it_description t)
                  \<and> length (it_amount t) \<le> 16000
                  \<and> 0 < q \<and> q < 10 ^ 10 \<and> of_int \<lfloor>q * 100\<rfloor> = q * 100
               then Some (if it_type t = ''credit'' then \<lfloor>q * 100\<rfloor> else - \<lfloor>q * 100\<rfloor>)
               else None))"

text \<open>The balances \<open>c\<close>, \<open>c + d1\<close>, \<open>c + d1 + d2\<close>, ... all fit the column.\<close>

fun fits_column :: "int \<Rightarrow> int list \<Rightarrow> bool" where
  "fits_column c [] \<longleftrightarrow> \<bar>c\<bar> < 10 ^ 12"
| "fits_column c (d # ds) \<longleftrightarrow> \<bar>c\<bar> < 10 ^ 12 \<and> fits_column (c + d) ds"

text \<open>
  The specification's form of persisted money: decimal text with exactly two fractional
  digits (an optional minus sign, at least one digit, a point, two digits).
\<close>

definition fixed2 :: "string \<Rightarrow> bool" where
  "fixed2 t =
     (case rev (case t of [] \<Rightarrow> [] | c # r \<Rightarrow> if c = CHR ''-'' then r else t) of
        d2 # d1 # p # ds \<Rightarrow>
          is_digit d2 \<and> is_digit d1 \<and> p = CHR ''.'' \<and> ds \<noteq> [] \<and> list_all is_digit ds
      | _ \<Rightarrow> False)"

text \<open>What a decimal column holds, and a database whose decimal columns hold nothing else.\<close>

definition column_text :: "string \<Rightarrow> bool" where
  "column_text t \<longleftrightarrow> t = ''NaN'' \<or> fixed2 t"

definition money_columns :: "db \<Rightarrow> bool" where
  "money_columns s \<longleftrightarrow>
     list_all (\<lambda>a. column_text (ba_balance a)) (bankAccounts s)
     \<and> list_all (\<lambda>t. column_text (tx_amount t)) (transactions s)
     \<and> list_all (\<lambda>e. column_text (se_amount e)) (splitExpenses s)
     \<and> list_all (\<lambda>p. column_text (sp_shareAmount p)) (splitParticipants s)"

text \<open>Request bodies of the two posting routes.\<close>

definition split_body :: "string \<Rightarrow> string \<Rightarrow> string \<Rightarrow> body" where
  "split_body payer amount participants =
     [(''payerName'', JString payer), (''amount'', JString amount),
      (''description'', JString ''dinner''), (''participants'', JString participants)]"

definition tx_body :: "string \<Rightarrow> string \<Rightarrow> string \<Rightarrow> body" where
  "tx_body account amount kind =
     [(''accountId'', JString account), (''amount'', JString amount),
      (''type'', JString kind), (''description'', JString ''salary'')]"

text \<open>A split of 100.00 paid by A among A, B and C, posted by user u1 to the empty database.\<close>

definition dinner_expense :: split_expense where
  "dinner_expense = \<lparr>se_id = ''id-0'', se_userId = ''u1'', se_payerName = ''A'',
      se_amount = ''100.00'', se_description = ''dinner'', se_date = 0, se_createdAt = 0\<rparr>"

definition dinner_shares :: "split_participant list" where
  "dinner_shares =
     [\<lparr>sp_id = ''id-1'', sp_expenseId = ''id-0'', sp_name = ''A'', sp_shareAmount = ''33.33''\<rparr>,
      \<lparr>sp_id = ''id-2'', sp_expenseId = ''id-0'', sp_name = ''B'', sp_shareAmount = ''33.33''\<rparr>,
      \<lparr>sp_id = ''id-3'', sp_expenseId = ''id-0'', sp_name = ''C'', sp_shareAmount = ''33.33''\<rparr>]"

definition dinner_db :: db where
  "dinner_db =
     \<lparr>bankAccounts = [], transactions = [], splitExpenses = [dinner_expense],
      splitParticipants = dinner_shares, next_uuid = 4, clock = 0\<rparr>"

definition dinner_response :: split_response where
  "dinner_response =
     \<lparr>sr_splitExpense = dinner_expense,
      sr_participants = [\<lparr>isp_name = ''A'', isp_shareAmount = ''33.33''\<rparr>,
                         \<lparr>isp_name = ''B'', isp_shareAmount = ''33.33''\<rparr>,
                         \<lparr>isp_name = ''C'', isp_shareAmount = ''33.33''\<rparr>],
      sr_calculations =
        \<lparr>totalAmount = Fin 100, sharePerPerson = Fin (2345390243441541 / 70368744177664),
         owedToPayer = [(''B'', Fin (2345390243441541 / 70368744177664)),
                        (''C'', Fin (2345390243441541 / 70368744177664))]\<rparr>\<rparr>"

text \<open>A database of user u2 in which the same split is posted again.\<close>

definition busy_db :: db where
  "busy_db =
     \<lparr>bankAccounts = [\<lparr>ba_id = ''id-0'', ba_userId = ''u2'', ba_name = ''main'',
                       ba_type = ''savings'', ba_balance = ''10.00'', ba_createdAt = 0\<rparr>],
      transactions = [], splitExpenses = [dinner_expense],
      splitParticipants =
        [\<lparr>sp_id = ''id-1'', sp_expenseId = ''id-0'', sp_name = ''Z'', sp_shareAmount = ''100.00''\<rparr>],
      next_uuid = 7, clock = 3\<rparr>"

definition second_dinner :: split_expense where
  "second_dinner = \<lparr>se_id = ''id-7'', se_userId = ''u2'', se_payerName = ''A'',
      se_amount = ''100.00'', se_description = ''dinner'', se_date = 3, se_createdAt = 3\<rparr>"

text \<open>
  A request for the same split under another description, with its keys in another order
  and a key that the schema drops.
\<close>

definition lunch_body :: body where
  "lunch_body =
     [(''note'', JString ''shared''), (''participants'', JString ''A, B,C''),
      (''description'', JString ''lunch''), (''amount'', JString ''100.00''),
      (''payerName'', JString ''A'')]"

text \<open>An account of user u1, opened with the default balance, and its first credit.\<close>

definition main_account :: "string \<Rightarrow> bank_account" where
  "main_account balance = \<lparr>ba_id = ''id-0'', ba_userId = ''u1'', ba_name = ''main'',
      ba_type = ''savings'', ba_balance = balance, ba_createdAt = 0\<rparr>"

definition account_db :: db where
  "account_db = \<lparr>bankAccounts = [main_account ''0.00''], transactions = [],
      splitExpenses = [], splitParticipants = [], next_uuid = 1, clock = 0\<rparr>"

definition salary_row :: "string \<Rightarrow> transaction_row" where
  "salary_row amount = \<lparr>tx_id = ''id-1'', tx_accountId = ''id-0'', tx_amount = amount,
      tx_type = ''credit'', tx_description = ''salary'', tx_date = 0, tx_createdAt = 0\<rparr>"

definition ledger_db :: db where
  "ledger_db = \<lparr>bankAccounts = [main_account ''10.00''], transactions = [salary_row ''10.00''],
      splitExpenses = [], splitParticipants = [], next_uuid = 2, clock = 0\<rparr>"

text \<open>An account at the upper end of the column, and four postings to the account of u1.\<close>

definition rich_db :: db where
  "rich_db = \<lparr>bankAccounts = [main_account ''9999999999.99''], transactions = [],
      splitExpenses = [], splitParticipants = [], next_uuid = 1, clock = 0\<rparr>"

definition four_postings :: "body list" where
  "four_postings = [tx_body ''id-0'' ''10.00'' ''credit'', tx_body ''id-0'' ''2.5'' ''debit'',
      tx_body ''id-0'' ''0.10'' ''credit'', tx_body ''id-0'' ''0.20'' ''credit'']"

section \<open>What the storage methods and the split route write\<close>

lemma those_map_Some:
  "those (map f xs) = Some ys \<Longrightarrow> list_all2 (\<lambda>x y. f x = Some y) xs ys"
proof (induction xs arbitrary: ys)
  case Nil
  then show ?case by simp
next
  case (Cons x xs)
  then show ?case by (auto split: option.splits)
qed

lemma participant_rows:
  assumes "those (map (\<lambda>(n, p). participant_row eid n p) (zip ns ps)) = Some rows"
    and "length ns = length ps"
  shows "list_all2 (\<lambda>p r. sp_name r = isp_name p \<and> sp_expenseId r = eid \<and>
            numeric_12_2 (isp_shareAmount p) = Some (sp_shareAmount r)) ps rows"
proof -
  have "list_all2 (\<lambda>x y. (case x of (n, p) \<Rightarrow> participant_row eid n p) = Some y) (zip ns ps) rows"
    using those_map_Some [OF assms(1)] .
  then have "list_all2 (\<lambda>x r. sp_name r = isp_name (snd x) \<and> sp_expenseId r = eid \<and>
            numeric_12_2 (isp_shareAmount (snd x)) = Some (sp_shareAmount r)) (zip ns ps) rows"
    by (rule list_all2_mono) (auto simp: participant_row_def split: option.splits if_splits)
  then have "list_all2 (\<lambda>p r. sp_name r = isp_name p \<and> sp_expenseId r = eid \<and>
            numeric_12_2 (isp_shareAmount p) = Some (sp_shareAmount r)) (map snd (zip ns ps)) rows"
    by (simp add: list_all2_map1)
  then show ?thesis using assms(2) by simp
qed

lemma createSplitParticipants_Inr:
  assumes "createSplitParticipants eid ps s = (s', Inr rows)"
  shows "splitParticipants s' = splitParticipants s @ rows"
    and "splitExpenses s' = splitExpenses s"
    and "bankAccounts s' = bankAccounts s"
    and "transactions s' = transactions s"
    and "list_all2 (\<lambda>p r. sp_name r = isp_name p \<and> sp_expenseId r = eid \<and>
            numeric_12_2 (isp_shareAmount p) = Some (sp_shareAmount r)) ps rows"
  using assms participant_rows [of eid "[next_uuid s ..< next_uuid s + length ps]" ps rows]
  by (auto simp: createSplitParticipants_def split: if_splits option.splits)

lemma createSplitParticipants_Inl:
  "createSplitParticipants eid ps s = (s', Inl e) \<Longrightarrow> s' = s \<and> e = DbError"
  by (auto simp: createSplitParticipants_def split: if_splits option.splits)

lemma createSplitExpense_Inr:
  assumes "createSplitExpense user v s = (s1, Inr row)"
  shows "splitExpenses s1 = splitExpenses s @ [row]"
    and "splitParticipants s1 = splitParticipants s"
    and "bankAccounts s1 = bankAccounts s"
    and "transactions s1 = transactions s"
    and "se_payerName row = ise_payerName v"
    and "se_userId row = user"
    and "numeric_12_2 (ise_amount v) = Some (se_amount row)"
  using assms by (auto simp: createSplitExpense_def Let_def split: option.splits if_splits)

lemma createSplitExpense_Inl:
  "createSplitExpense user v s = (s1, Inl e) \<Longrightarrow> s1 = s \<and> e = DbError"
  by (auto simp: createSplitExpense_def Let_def split: option.splits if_splits)

text \<open>What a successful call of the split route has computed and written.\<close>

lemma post_split_expense_Inr:
  assumes "post_split_expense user b s = (s', Inr r)"
  obtains (written) v p rows where
    "insertSplitExpenseSchema b = Inr v"
    "map_of b ''participants'' = Some (JString p)"
    "splitExpenses s' = splitExpenses s @ [sr_splitExpense r]"
    "splitParticipants s' = splitParticipants s @ rows"
    "se_payerName (sr_splitExpense r) = ise_payerName v"
    "sr_participants r =
       map (\<lambda>name. \<lparr>isp_name = name,
                     isp_shareAmount = toFixed2 (num_div_nat (parseFloat (ise_amount v))
                        (length (map trim (split_str CHR '','' p))))\<rparr>)
         (map trim (split_str CHR '','' p))"
    "list_all2 (\<lambda>p r'. sp_name r' = isp_name p \<and> sp_expenseId r' = se_id (sr_splitExpense r) \<and>
            numeric_12_2 (isp_shareAmount p) = Some (sp_shareAmount r')) (sr_participants r) rows"
    "sr_calculations r =
       \<lparr>totalAmount = parseFloat (ise_amount v),
        sharePerPerson = parseFloat (toFixed2 (num_div_nat (parseFloat (ise_amount v))
                        (length (map trim (split_str CHR '','' p))))),
        owedToPayer = map (\<lambda>name. (name, parseFloat (toFixed2 (num_div_nat (parseFloat (ise_amount v))
                        (length (map trim (split_str CHR '','' p)))))))
                       (filter (\<lambda>name. name \<noteq> ise_payerName v) (map trim (split_str CHR '','' p)))\<rparr>"
    "numeric_12_2 (ise_amount v) = Some (se_amount (sr_splitExpense r))"
proof -
  from assms obtain v where v: "insertSplitExpenseSchema b = Inr v"
    by (auto simp: post_split_expense_def split: sum.splits)
  from assms v obtain s1 row where c: "createSplitExpense user v s = (s1, Inr row)"
    by (auto simp: post_split_expense_def split: sum.splits prod.splits)
  from assms v c obtain p where p: "map_of b ''participants'' = Some (JString p)"
    by (auto simp: post_split_expense_def split: sum.splits prod.splits option.splits json.splits)
  let ?names = "map trim (split_str CHR '','' p)"
  let ?sh = "toFixed2 (num_div_nat (parseFloat (ise_amount v)) (length ?names))"
  let ?ps = "map (\<lambda>name. \<lparr>isp_name = name, isp_shareAmount = ?sh\<rparr>) ?names"
  from assms v c p obtain rows where
    d: "createSplitParticipants (se_id row) ?ps s1 = (s', Inr rows)"
    and r: "r = \<lparr>sr_splitExpense = row, sr_participants = ?ps,
                 sr_calculations = \<lparr>totalAmount = parseFloat (ise_amount v),
                    sharePerPerson = parseFloat ?sh,
                    owedToPayer = map (\<lambda>name. (name, parseFloat ?sh))
                       (filter (\<lambda>name. name \<noteq> ise_payerName v) ?names)\<rparr>\<rparr>"
    by (auto simp: post_split_expense_def Let_def split: sum.splits prod.splits)
  show thesis
  proof (rule that [of v p rows])
    show "insertSplitExpenseSchema b = Inr v" by (rule v)
    show "map_of b ''participants'' = Some (JString p)" by (rule p)
    show "splitExpenses s' = splitExpenses s @ [sr_splitExpense r]"
      using createSplitExpense_Inr(1) [OF c] createSplitParticipants_Inr(2) [OF d] r by simp
    show "splitParticipants s' = splitParticipants s @ rows"
      using createSplitExpense_Inr(2) [OF c] createSplitParticipants_Inr(1) [OF d] by simp
    show "se_payerName (sr_splitExpense r) = ise_payerName v"
      using createSplitExpense_Inr(5) [OF c] r by simp
    show "sr_participants r = ?ps" using r by simp
    show "list_all2 (\<lambda>p r'. sp_name r' = isp_name p \<and> sp_expenseId r' = se_id (sr_splitExpense r) \<and>
            numeric_12_2 (isp_shareAmount p) = Some (sp_shareAmount r')) (sr_participants r) rows"
      using createSplitParticipants_Inr(5) [OF d] r by simp
    show "sr_calculations r =
       \<lparr>totalAmount = parseFloat (ise_amount v), sharePerPerson = parseFloat ?sh,
        owedToPayer = map (\<lambda>name. (name, parseFloat ?sh))
                       (filter (\<lambda>name. name \<noteq> ise_payerName v) ?names)\<rparr>"
      using r by simp
    show "numeric_12_2 (ise_amount v) = Some (se_amount (sr_splitExpense r))"
      using createSplitExpense_Inr(7) [OF c] r by simp
  qed
qed

lemma list_all2_same_image:
  assumes "list_all2 Q ps rows" and "list_all2 Q ps rows'"
    and same: "\<And>p r r'. Q p r \<Longrightarrow> Q p r' \<Longrightarrow> f r = f r'"
  shows "map f rows = map f rows'"
  using assms(1,2)
proof (induction arbitrary: rows' rule: list_all2_induct)
  case Nil
  then show ?case by simp
next
  case (Cons p ps r rows)
  from Cons.prems obtain r' rows'' where
    r': "rows' = r' # rows''" "Q p r'" "list_all2 Q ps rows''"
    by (auto simp: list_all2_Cons1)
  have "f r = f r'" by (rule same [OF Cons.hyps(1) r'(2)])
  moreover have "map f rows = map f rows''" by (rule Cons.IH [OF r'(3)])
  ultimately show ?case using r'(1) by simp
qed

section \<open>Reading and writing decimal text\<close>

subsection \<open>Digits\<close>

lemma is_digit_digit_char: "0 \<le> d \<Longrightarrow> d < 10 \<Longrightarrow> is_digit (digit_char d)"
proof -
  assume "0 \<le> d" "d < 10"
  then have "d = 0 \<or> d = 1 \<or> d = 2 \<or> d = 3 \<or> d = 4 \<or> d = 5 \<or> d = 6 \<or> d = 7 \<or> d = 8 \<or> d = 9"
    by arith
  then show ?thesis by (auto simp: is_digit_def digit_char_def)
qed

lemma digit_of_digit_char: "0 \<le> d \<Longrightarrow> d < 10 \<Longrightarrow> digit_of (digit_char d) = d"
proof -
  assume "0 \<le> d" "d < 10"
  then have "d = 0 \<or> d = 1 \<or> d = 2 \<or> d = 3 \<or> d = 4 \<or> d = 5 \<or> d = 6 \<or> d = 7 \<or> d = 8 \<or> d = 9"
    by arith
  then show ?thesis by (auto simp: digit_of_def digit_char_def)
qed

lemma digits_of_int_digits: "0 \<le> n \<Longrightarrow> list_all is_digit (digits_of_int n)"
proof (induction n rule: digits_of_int.induct)
  case (1 n)
  show ?case
  proof (cases "n < 10")
    case True
    then show ?thesis using 1(2) by (subst digits_of_int.simps) (simp add: is_digit_digit_char)
  next
    case False
    then have "list_all is_digit (digits_of_int (n div 10))" using 1 by simp
    moreover have "is_digit (digit_char (n mod 10))" by (simp add: is_digit_digit_char)
    ultimately show ?thesis using False by (subst digits_of_int.simps) simp
  qed
qed

lemma digits_of_int_neq_Nil: "digits_of_int n \<noteq> []"
  by (subst digits_of_int.simps) simp

lemma int_of_digits_append:
  "int_of_digits (xs @ ys) = int_of_digits xs * 10 ^ length ys + int_of_digits ys"
proof -
  define f where "f = (\<lambda>(a::int) c. 10 * a + digit_of c)"
  have step: "foldl f a ys = a * 10 ^ length ys + foldl f 0 ys" for a
  proof (induction ys arbitrary: a rule: rev_induct)
    case Nil
    then show ?case by simp
  next
    case (snoc y ys)
    have "foldl f a (ys @ [y]) = 10 * foldl f a ys + digit_of y" by (simp add: f_def)
    also have "\<dots> = 10 * (a * 10 ^ length ys + foldl f 0 ys) + digit_of y"
      by (simp only: snoc [of a])
    also have "\<dots> = a * 10 ^ length (ys @ [y]) + (10 * foldl f 0 ys + digit_of y)"
      by (simp add: algebra_simps)
    also have "10 * foldl f 0 ys + digit_of y = foldl f 0 (ys @ [y])" by (simp add: f_def)
    finally show ?case .
  qed
  have "int_of_digits (xs @ ys) = foldl f (foldl f 0 xs) ys"
    by (simp add: int_of_digits_def f_def)
  also have "\<dots> = foldl f 0 xs * 10 ^ length ys + foldl f 0 ys" by (rule step)
  finally show ?thesis by (simp add: int_of_digits_def f_def)
qed

lemma int_of_digits_single: "int_of_digits [c] = digit_of c"
  by (simp add: int_of_digits_def)

lemma int_of_digits_Nil: "int_of_digits [] = 0"
  by (simp add: int_of_digits_def)

lemma int_of_digits_of_int: "0 \<le> n \<Longrightarrow> int_of_digits (digits_of_int n) = n"
proof (induction n rule: digits_of_int.induct)
  case (1 n)
  show ?case
  proof (cases "n < 10")
    case True
    then show ?thesis using 1(2)
      by (subst digits_of_int.simps) (simp add: int_of_digits_single digit_of_digit_char)
  next
    case False
    then have "int_of_digits (digits_of_int (n div 10)) = n div 10" using 1 by simp
    then show ?thesis using False
      by (subst digits_of_int.simps)
         (simp add: int_of_digits_append int_of_digits_single digit_of_digit_char)
  qed
qed

lemma int_of_digits_nonneg: "list_all is_digit ds \<Longrightarrow> 0 \<le> int_of_digits ds"
proof (induction ds rule: rev_induct)
  case Nil
  then show ?case by (simp add: int_of_digits_Nil)
next
  case (snoc d ds)
  then have "0 \<le> digit_of d" by (simp add: is_digit_def digit_of_def)
  then show ?case using snoc by (simp add: int_of_digits_append int_of_digits_single)
qed

text \<open>The length of the numeral of a positive integer.\<close>

lemma length_digits_of_int:
  "10 ^ k \<le> n \<Longrightarrow> n < 10 ^ Suc k \<Longrightarrow> length (digits_of_int n) = Suc k"
proof (induction k arbitrary: n)
  case 0
  then show ?case by (subst digits_of_int.simps) simp
next
  case (Suc k)
  have "10 ^ k \<le> n div 10" using Suc.prems(1) by simp
  moreover have "n div 10 < 10 ^ Suc k" using Suc.prems(2) by simp
  ultimately have "length (digits_of_int (n div 10)) = Suc k" by (rule Suc.IH)
  moreover have "\<not> n < 10"
  proof -
    have "(10::int) \<le> 10 ^ Suc k" by simp
    then show ?thesis using Suc.prems(1) by linarith
  qed
  ultimately show ?case by (subst digits_of_int.simps) simp
qed

subsection \<open>Both readers agree on a decimal literal\<close>

lemma takeWhile_digits: "list_all is_digit ds \<Longrightarrow> takeWhile is_digit ds = ds"
  by (simp add: list_all_iff)

lemma pg_exponent_exponent_part: "pg_exponent r = Some ex \<Longrightarrow> exponent_part r = ex"
  by (auto simp: pg_exponent_def exponent_part_def Let_def takeWhile_digits
      split: list.splits if_splits)

lemma unsigned_literal_decimal_prefix:
  assumes "unsigned_literal u = Some q"
  shows "decimal_prefix u = Some q"
proof (cases "dropWhile is_digit u")
  case Nil
  then show ?thesis using assms
    by (auto simp: unsigned_literal_def decimal_prefix_def Let_def
        simp del: dropWhile_eq_Nil_conv
        split: if_splits option.splits dest: pg_exponent_exponent_part)
next
  case (Cons c r)
  show ?thesis
  proof (cases "c = CHR ''.''")
    case True
    then show ?thesis using assms Cons
      by (auto simp: unsigned_literal_def decimal_prefix_def Let_def
          split: if_splits option.splits dest: pg_exponent_exponent_part)
  next
    case False
    then show ?thesis using assms Cons
      by (auto simp: unsigned_literal_def decimal_prefix_def Let_def
          split: if_splits option.splits dest: pg_exponent_exponent_part)
  qed
qed

lemma unsigned_literal_head:
  "unsigned_literal u = Some q \<Longrightarrow> \<exists>c r. u = c # r \<and> (is_digit c \<or> c = CHR ''.'')"
proof (cases u)
  case Nil
  assume "unsigned_literal u = Some q"
  then show ?thesis using Nil by (simp add: unsigned_literal_def)
next
  case (Cons c r)
  assume "unsigned_literal u = Some q"
  then show ?thesis using Cons
    by (auto simp: unsigned_literal_def Let_def split: if_splits)
qed

lemma not_space_digit: "is_digit c \<or> c = CHR ''.'' \<Longrightarrow> \<not> is_space c"
  by (auto simp: is_digit_def is_space_def)

lemma parseFloat_unsigned:
  assumes "unsigned_literal u = Some q"
  shows "parseFloat u = fl q" and "parseFloat (CHR ''-'' # u) = fl (- q)"
    and "parseFloat (CHR ''+'' # u) = fl q"
proof -
  obtain c r where u: "u = c # r" and c: "is_digit c \<or> c = CHR ''.''"
    using unsigned_literal_head [OF assms] by blast
  have ns: "\<not> is_space c" using c by (rule not_space_digit)
  have c': "c \<noteq> CHR ''-''" "c \<noteq> CHR ''+''" "c \<noteq> CHR ''I''"
    using c by (auto simp: is_digit_def)
  have d: "decimal_prefix (c # r) = Some q"
    using unsigned_literal_decimal_prefix [OF assms] u by simp
  show "parseFloat u = fl q"
    using ns c' d by (simp add: parseFloat_def u)
  show "parseFloat (CHR ''-'' # u) = fl (- q)"
    using c' d by (simp add: parseFloat_def u is_space_def)
  show "parseFloat (CHR ''+'' # u) = fl q"
    using c' d by (simp add: parseFloat_def u is_space_def)
qed

lemma parseFloat_numeric_literal:
  "numeric_literal t = Some q \<Longrightarrow> parseFloat t = fl q"
  by (auto simp: numeric_literal_def parseFloat_unsigned split: list.splits if_splits)

subsection \<open>Reading back what was written\<close>

lemma not_digit_point: "\<not> is_digit CHR ''.''"
  by (simp add: is_digit_def)

lemma pg_exponent_Nil: "pg_exponent [] = Some 0"
  by (simp add: pg_exponent_def)

lemma unsigned_literal_fixed:
  assumes "list_all is_digit ds1" and "ds1 \<noteq> []" and "list_all is_digit ds2"
  shows "unsigned_literal (ds1 @ ''.'' @ ds2)
           = Some (of_int (int_of_digits (ds1 @ ds2)) * 10 powi (- int (length ds2)))"
proof -
  have 1: "takeWhile is_digit (ds1 @ CHR ''.'' # ds2) = ds1"
    using assms(1) by (simp add: takeWhile_append2 list_all_iff not_digit_point)
  have 2: "dropWhile is_digit (ds1 @ CHR ''.'' # ds2) = CHR ''.'' # ds2"
    using assms(1) by (simp add: dropWhile_append2 list_all_iff not_digit_point)
  have 3: "takeWhile is_digit ds2 = ds2" "dropWhile is_digit ds2 = []"
    using assms(3) by (simp_all add: list_all_iff)
  show ?thesis
    using assms(2) by (simp add: unsigned_literal_def 1 2 3 pg_exponent_Nil del: dropWhile_eq_Nil_conv)
qed

lemma unsigned_literal_integer:
  assumes "list_all is_digit ds" and "ds \<noteq> []"
  shows "unsigned_literal ds = Some (of_int (int_of_digits ds))"
proof -
  have 1: "takeWhile is_digit ds = ds" "dropWhile is_digit ds = []"
    using assms(1) by (simp_all add: list_all_iff)
  show ?thesis
    using assms(2) by (simp add: unsigned_literal_def 1 pg_exponent_Nil del: dropWhile_eq_Nil_conv)
qed

lemma cents_text_split:
  assumes "0 \<le> c"
  shows "list_all is_digit (digits_of_int (c div 100))"
    and "list_all is_digit [digit_char (c mod 100 div 10), digit_char (c mod 10)]"
    and "int_of_digits (digits_of_int (c div 100) @ [digit_char (c mod 100 div 10), digit_char (c mod 10)]) = c"
proof -
  show "list_all is_digit (digits_of_int (c div 100))"
    using assms by (simp add: digits_of_int_digits)
  have a: "0 \<le> c mod 100 div 10" "c mod 100 div 10 < 10" "0 \<le> c mod 10" "c mod 10 < 10"
    by simp_all
  show "list_all is_digit [digit_char (c mod 100 div 10), digit_char (c mod 10)]"
    using a by (simp add: is_digit_digit_char)
  have "int_of_digits [digit_char (c mod 100 div 10), digit_char (c mod 10)]
          = (c mod 100 div 10) * 10 + c mod 10"
    using a int_of_digits_append [of "[digit_char (c mod 100 div 10)]" "[digit_char (c mod 10)]"]
    by (simp add: int_of_digits_single digit_of_digit_char)
  moreover have "c mod 10 = c mod 100 mod 10"
    by (simp add: mod_mod_cancel)
  ultimately have "int_of_digits [digit_char (c mod 100 div 10), digit_char (c mod 10)] = c mod 100"
    by simp
  then show "int_of_digits (digits_of_int (c div 100) @ [digit_char (c mod 100 div 10), digit_char (c mod 10)]) = c"
    using assms by (simp add: int_of_digits_append int_of_digits_of_int)
qed

lemma unsigned_literal_cents_text:
  assumes "0 \<le> c"
  shows "unsigned_literal (cents_text c) = Some (of_int c / 100)"
proof -
  have "unsigned_literal (digits_of_int (c div 100) @ ''.'' @ [digit_char (c mod 100 div 10), digit_char (c mod 10)])
          = Some (of_int c * 10 powi (- int (length [digit_char (c mod 100 div 10), digit_char (c mod 10)])))"
    using unsigned_literal_fixed [OF cents_text_split(1) [OF assms] digits_of_int_neq_Nil
        cents_text_split(2) [OF assms]]
    by (simp only: cents_text_split(3) [OF assms])
  then show ?thesis by (simp add: cents_text_def power_int_minus_divide)
qed

lemma cents_text_head:
  assumes "0 \<le> c"
  shows "\<exists>d r. cents_text c = d # r \<and> is_digit d"
proof -
  obtain d r where dr: "digits_of_int (c div 100) = d # r"
    using digits_of_int_neq_Nil [of "c div 100"] by (cases "digits_of_int (c div 100)") auto
  moreover have "is_digit d"
    using cents_text_split(1) [OF assms] dr by simp
  ultimately show ?thesis by (simp add: cents_text_def)
qed

lemma cents_text_last:
  "\<exists>r d. cents_text c = r @ [d] \<and> is_digit d"
proof -
  have "cents_text c = (digits_of_int (c div 100) @ ''.'' @ [digit_char (c mod 100 div 10)]) @ [digit_char (c mod 10)]"
    by (simp add: cents_text_def)
  moreover have "is_digit (digit_char (c mod 10))" by (simp add: is_digit_digit_char)
  ultimately show ?thesis by blast
qed

lemma numeric_literal_numeric_out: "numeric_literal (numeric_out c) = Some (of_int c / 100)"
proof (cases "c < 0")
  case True
  then have "unsigned_literal (cents_text \<bar>c\<bar>) = Some (of_int (- c) / 100)"
    using unsigned_literal_cents_text [of "\<bar>c\<bar>"] by simp
  then show ?thesis using True by (simp add: numeric_literal_def numeric_out_def)
next
  case False
  then obtain d r where dr: "cents_text c = d # r" "is_digit d"
    using cents_text_head [of c] by auto
  then have "d \<noteq> CHR ''-''" "d \<noteq> CHR ''+''" by (auto simp: is_digit_def)
  moreover have "unsigned_literal (d # r) = Some (of_int c / 100)"
    using unsigned_literal_cents_text [of c] False dr by simp
  ultimately show ?thesis using False dr by (simp add: numeric_literal_def numeric_out_def)
qed

lemma parseFloat_numeric_out: "parseFloat (numeric_out c) = fl (of_int c / 100)"
  by (rule parseFloat_numeric_literal [OF numeric_literal_numeric_out])

lemma round_half_away_of_int: "round_half_away (of_int c) = c"
proof -
  have "\<lfloor>rat_of_int c + 1 / 2\<rfloor> = c" by linarith
  moreover have "\<lfloor>- rat_of_int c + 1 / 2\<rfloor> = - c" by linarith
  ultimately show ?thesis by (simp add: round_half_away_def)
qed

subsection \<open>The column on a decimal literal\<close>

lemma pg_exponent_last: "pg_exponent r = Some ex \<Longrightarrow> r = [] \<or> is_digit (last r)"
  by (auto simp: pg_exponent_def Let_def list_all_iff split: list.splits if_splits)

lemma unsigned_literal_last:
  assumes "unsigned_literal u = Some q"
  shows "u \<noteq> [] \<and> (is_digit (last u) \<or> last u = CHR ''.'')"
proof -
  have u: "u = takeWhile is_digit u @ dropWhile is_digit u" by simp
  have t: "list_all is_digit (takeWhile is_digit u)"
    by (simp add: list_all_iff) (meson set_takeWhileD)
  show ?thesis
  proof (cases "dropWhile is_digit u")
    case Nil
    then have "takeWhile is_digit u = u" using u by simp
    moreover have "u \<noteq> []" using assms by (auto simp: unsigned_literal_def)
    ultimately show ?thesis using t by (auto simp: list_all_iff)
  next
    case (Cons c r)
    then have ne: "u \<noteq> []" by auto
    have lastu: "last u = last (c # r)"
      using u Cons by (metis last_appendR list.distinct(1))
    show ?thesis
    proof (cases "c = CHR ''.''")
      case True
      let ?ds2 = "takeWhile is_digit r" and ?r2 = "dropWhile is_digit r"
      have r: "r = ?ds2 @ ?r2" by simp
      obtain ex where ex: "pg_exponent ?r2 = Some ex"
        using assms Cons True
        by (auto simp: unsigned_literal_def Let_def simp del: dropWhile_eq_Nil_conv
            split: if_splits option.splits)
      have ds2: "list_all is_digit ?ds2"
        by (simp add: list_all_iff) (meson set_takeWhileD)
      consider "?r2 = []" "?ds2 = []" | "?r2 = []" "?ds2 \<noteq> []" | "?r2 \<noteq> []"
        by blast
      then have "is_digit (last (c # r)) \<or> last (c # r) = CHR ''.''"
      proof cases
        case 1
        have "?ds2 @ ?r2 = r" by (rule takeWhile_dropWhile_id)
        then have "r = []" unfolding 1 by simp
        then show ?thesis using True by simp
      next
        case 2
        have "?ds2 @ ?r2 = r" by (rule takeWhile_dropWhile_id)
        then have "r = ?ds2" unfolding 2(1) by (simp only: append_Nil2)
        then have "last (c # r) = last ?ds2" using 2(2) by (metis last_ConsR)
        moreover have "is_digit (last ?ds2)"
          using ds2 2 by (metis last_in_set list_all_iff)
        ultimately show ?thesis by simp
      next
        case 3
        then have l: "last (c # r) = last ?r2"
          using r by (metis last_ConsR last_appendR list.distinct(1) append_is_Nil_conv)
        have "is_digit (last ?r2)" using pg_exponent_last [OF ex] 3 by blast
        then show ?thesis by (simp only: l) blast
      qed
      then show ?thesis using ne lastu by simp
    next
      case False
      then obtain ex where ex: "pg_exponent (c # r) = Some ex"
        using assms Cons
        by (auto simp: unsigned_literal_def Let_def simp del: dropWhile_eq_Nil_conv
            split: if_splits option.splits)
      then show ?thesis using pg_exponent_last [OF ex] ne lastu by simp
    qed
  qed
qed

lemma numeric_literal_ends:
  assumes "numeric_literal t = Some q"
  shows "\<exists>c r. t = c # r \<and> \<not> pg_space c \<and> lower c \<noteq> CHR ''n''"
    and "\<exists>r d. t = r @ [d] \<and> \<not> pg_space d"
proof -
  from assms obtain c r where t: "t = c # r"
    by (cases t) (auto simp: numeric_literal_def)
  have c: "c = CHR ''-'' \<or> c = CHR ''+'' \<or> is_digit c \<or> c = CHR ''.''"
    using assms t unsigned_literal_head [of t q]
    by (auto simp: numeric_literal_def split: if_splits)
  then show "\<exists>c r. t = c # r \<and> \<not> pg_space c \<and> lower c \<noteq> CHR ''n''"
    using t by (auto simp: pg_space_def is_digit_def lower_def)
  have "is_digit (last t) \<or> last t = CHR ''.''"
  proof (cases "c = CHR ''-'' \<or> c = CHR ''+''")
    case True
    then obtain q' where "unsigned_literal r = Some q'"
      using assms t by (auto simp: numeric_literal_def split: if_splits)
    then have "r \<noteq> [] \<and> (is_digit (last r) \<or> last r = CHR ''.'')"
      by (rule unsigned_literal_last)
    then show ?thesis using t by simp
  next
    case False
    then have "unsigned_literal t = Some q"
      using assms t by (auto simp: numeric_literal_def split: if_splits)
    then show ?thesis using unsigned_literal_last by blast
  qed
  then have "\<not> pg_space (last t)" by (auto simp: pg_space_def is_digit_def)
  moreover have "t = butlast t @ [last t]" using t by simp
  ultimately show "\<exists>r d. t = r @ [d] \<and> \<not> pg_space d" by blast
qed

subsection \<open>A literal without underscores within the limits of the server\<close>

lemma pg_exponent_chars:
  assumes "pg_exponent r = Some ex" and "c \<in> set r"
  shows "c \<noteq> CHR ''_''"
proof -
  have d: "\<not> is_digit CHR ''_''" by (simp add: is_digit_def)
  show ?thesis
    using assms d
    by (auto simp: pg_exponent_def Let_def list_all_iff split: list.splits if_splits)
qed

lemma takeWhile_digits_chars: "c \<in> set (takeWhile is_digit u) \<Longrightarrow> c \<noteq> CHR ''_''"
  using set_takeWhileD [of c is_digit u] by (auto simp: is_digit_def)

text \<open>The parts of a literal: fractional digits, exponent, value.\<close>

lemma unsigned_literal_parts:
  assumes "unsigned_literal u = Some q"
  obtains ds2 ex where
    "pg_decimal u = (if 1073741823 < \<bar>ex\<bar> \<or> 16383 < int (length ds2) - ex then None else Some q)"
    "q = of_int (int_of_digits (takeWhile is_digit u @ ds2)) * 10 powi (ex - int (length ds2))"
    "list_all is_digit ds2"
    "length (takeWhile is_digit u) + length ds2 \<le> length u"
    "CHR ''_'' \<notin> set u"
proof -
  define r1 where "r1 = dropWhile is_digit u"
  define P where "P = (case r1 of [] \<Rightarrow> ([], r1)
      | c # r \<Rightarrow> if c = CHR ''.'' then (takeWhile is_digit r, dropWhile is_digit r) else ([], r1))"
  obtain ds2 r2 where P: "P = (ds2, r2)" by (cases P)
  have u: "u = takeWhile is_digit u @ r1" by (simp add: r1_def)
  have ul: "unsigned_literal u =
      (if takeWhile is_digit u = [] \<and> ds2 = [] then None
       else (case pg_exponent r2 of None \<Rightarrow> None
             | Some ex \<Rightarrow> Some (of_int (int_of_digits (takeWhile is_digit u @ ds2))
                              * 10 powi (ex - int (length ds2)))))"
    unfolding unsigned_literal_def Let_def r1_def [symmetric] P_def [symmetric] P by simp
  have pd: "pg_decimal u =
      (case pg_exponent r2 of None \<Rightarrow> None
       | Some ex \<Rightarrow> if 1073741823 < \<bar>ex\<bar> \<or> 16383 < int (length ds2) - ex then None
                     else unsigned_literal u)"
    unfolding pg_decimal_def Let_def r1_def [symmetric] P_def [symmetric] P by simp
  from assms ul obtain ex where ex: "pg_exponent r2 = Some ex"
    and q: "q = of_int (int_of_digits (takeWhile is_digit u @ ds2)) * 10 powi (ex - int (length ds2))"
    by (auto split: if_splits option.splits)
  have shape: "(ds2 = [] \<and> r2 = r1) \<or> (\<exists>r. r1 = CHR ''.'' # r \<and> ds2 = takeWhile is_digit r
                  \<and> r2 = dropWhile is_digit r)"
    using P unfolding P_def by (auto split: list.splits if_splits)
  have dig: "list_all is_digit ds2"
    using shape by (auto simp: list_all_iff dest: set_takeWhileD)
  have len: "length (takeWhile is_digit u) + length ds2 \<le> length u"
  proof -
    have "length ds2 \<le> length r1"
      using shape length_takeWhile_le [of is_digit] by (auto simp: le_Suc_eq)
    moreover have "length u = length (takeWhile is_digit u) + length r1"
      using u by (metis length_append)
    ultimately show ?thesis by linarith
  qed
  have r1: "CHR ''_'' \<notin> set r1"
  proof
    assume a: "CHR ''_'' \<in> set r1"
    from shape show False
    proof
      assume "ds2 = [] \<and> r2 = r1"
      then show False using pg_exponent_chars [OF ex] a by auto
    next
      assume "\<exists>r. r1 = CHR ''.'' # r \<and> ds2 = takeWhile is_digit r \<and> r2 = dropWhile is_digit r"
      then obtain r where r: "r1 = CHR ''.'' # r" "ds2 = takeWhile is_digit r"
        "r2 = dropWhile is_digit r" by blast
      have "r = ds2 @ r2" by (simp add: r)
      then have "CHR ''_'' \<in> set ds2 \<or> CHR ''_'' \<in> set r2" using a r(1) by auto
      then show False
        using pg_exponent_chars [OF ex] takeWhile_digits_chars [of "CHR ''_''" r] r(2) by auto
    qed
  qed
  have free: "CHR ''_'' \<notin> set u"
  proof -
    have "set u = set (takeWhile is_digit u) \<union> set r1" using u by (metis set_append)
    then show ?thesis using r1 takeWhile_digits_chars [of "CHR ''_''" u] by auto
  qed
  show thesis
    using that [of ex ds2] pd ex assms q dig len free by simp
qed

lemma unsigned_literal_not_radix:
  assumes "unsigned_literal (z # c # body) = Some q"
  shows "pg_radix c = None"
proof (rule ccontr)
  assume "pg_radix c \<noteq> None"
  then have c: "c \<in> {CHR ''x'', CHR ''X'', CHR ''o'', CHR ''O'', CHR ''b'', CHR ''B''}"
    by (auto simp: pg_radix_def split: if_splits)
  then have nd: "\<not> is_digit c" "c \<noteq> CHR ''.''" "c \<noteq> CHR ''e''" "c \<noteq> CHR ''E''"
    by (auto simp: is_digit_def)
  have ex: "pg_exponent (c # r) = None" for r using nd by (simp add: pg_exponent_def)
  show False
  proof (cases "is_digit z")
    case True
    then show ?thesis using assms nd ex by (simp add: unsigned_literal_def Let_def)
  next
    case False
    show ?thesis
    proof (cases "z = CHR ''.''")
      case True
      then show ?thesis using assms nd False ex by (simp add: unsigned_literal_def Let_def)
    next
      case n: False
      have "pg_exponent (z # c # body) = Some 0 \<or> pg_exponent (z # c # body) = None
             \<or> (\<exists>ex. pg_exponent (z # c # body) = Some ex)" by auto
      then show ?thesis using assms False n by (simp add: unsigned_literal_def Let_def)
    qed
  qed
qed

lemma underscores_ok_free: "CHR ''_'' \<notin> set u \<Longrightarrow> underscores_ok p u"
  by (induction u arbitrary: p) auto

lemma pg_unsigned_literal:
  assumes "unsigned_literal u = Some q"
  shows "pg_unsigned u = pg_decimal u"
proof -
  have free: "CHR ''_'' \<notin> set u"
    using assms by (rule unsigned_literal_parts)
  have f: "filter (\<lambda>c. c \<noteq> CHR ''_'') u = u" using free by (auto simp: filter_id_conv)
  have "(case u of z # c # body \<Rightarrow>
            if z = CHR ''0'' then map_option (\<lambda>base. (base, body)) (pg_radix c) else None
         | _ \<Rightarrow> None) = None"
    using unsigned_literal_not_radix assms by (auto split: list.splits)
  then show ?thesis
    using underscores_ok_free [OF free] f by (simp add: pg_unsigned_def)
qed

lemma int_of_digits_less: "list_all is_digit ds \<Longrightarrow> int_of_digits ds < 10 ^ length ds"
proof (induction ds rule: rev_induct)
  case Nil
  then show ?case by (simp add: int_of_digits_Nil)
next
  case (snoc d ds)
  then have d: "digit_of d \<le> 9" by (simp add: is_digit_def digit_of_def)
  have "int_of_digits ds + 1 \<le> 10 ^ length ds" using snoc by simp
  then have "10 * (int_of_digits ds + 1) \<le> 10 * 10 ^ length ds" by simp
  then show ?case
    using d by (simp add: int_of_digits_append int_of_digits_single)
qed

lemma unsigned_literal_nonneg:
  assumes "unsigned_literal u = Some q"
  shows "0 \<le> q"
  using assms
proof (rule unsigned_literal_parts)
  fix ds2 :: string and ex :: int
  assume q: "q = of_int (int_of_digits (takeWhile is_digit u @ ds2)) * 10 powi (ex - int (length ds2))"
    and dig: "list_all is_digit ds2"
  have "list_all is_digit (takeWhile is_digit u @ ds2)"
    using dig by (auto simp: list_all_iff dest: set_takeWhileD)
  then have "0 \<le> int_of_digits (takeWhile is_digit u @ ds2)" by (rule int_of_digits_nonneg)
  then show ?thesis unfolding q by (intro mult_nonneg_nonneg) simp_all
qed

text \<open>
  A literal of at most 16000 characters whose value is at least \<open>10^-4\<close> and below
  \<open>10^12\<close> is within the limits.
\<close>

lemma pg_decimal_literal:
  assumes "unsigned_literal u = Some q" and "10 powi (- 4) \<le> q" and "q < 10 powi 12"
    and "length u \<le> 16000"
  shows "pg_decimal u = Some q"
  using assms(1)
proof (rule unsigned_literal_parts)
  fix ds2 :: string and ex :: int
  assume pd: "pg_decimal u =
      (if 1073741823 < \<bar>ex\<bar> \<or> 16383 < int (length ds2) - ex then None else Some q)"
    and q: "q = of_int (int_of_digits (takeWhile is_digit u @ ds2)) * 10 powi (ex - int (length ds2))"
    and dig: "list_all is_digit ds2"
    and len: "length (takeWhile is_digit u) + length ds2 \<le> length u"
  define D where "D = int_of_digits (takeWhile is_digit u @ ds2)"
  define L where "L = length (takeWhile is_digit u) + length ds2"
  define k where "k = ex - int (length ds2)"
  have digs: "list_all is_digit (takeWhile is_digit u @ ds2)"
    using dig by (auto simp: list_all_iff dest: set_takeWhileD)
  have D0: "0 \<le> D" unfolding D_def using digs by (rule int_of_digits_nonneg)
  have DL: "D < 10 ^ L" unfolding D_def L_def using int_of_digits_less [OF digs] by simp
  have L: "L \<le> 16000" using len assms(4) by (simp add: L_def)
  have qk: "q = of_int D * 10 powi k" using q by (simp add: D_def k_def)
  have q0: "0 < q"
  proof -
    have "(0::rat) < 10 powi (- 4)" by simp
    then show ?thesis using assms(2) by linarith
  qed
  have pk: "(0::rat) < 10 powi k" by simp
  have D1: "1 \<le> D"
  proof (rule ccontr)
    assume "\<not> 1 \<le> D"
    then have "D = 0" using D0 by linarith
    then show False using qk q0 by simp
  qed
  have lower: "- 16004 < k"
  proof (rule ccontr)
    assume "\<not> - 16004 < k"
    then have "k + int L \<le> - 4" using L by linarith
    then have "(10::rat) powi (k + int L) \<le> 10 powi (- 4)"
      by (intro power_int_increasing) simp_all
    moreover have "q < 10 powi (k + int L)"
    proof -
      have "rat_of_int D < of_int (10 ^ L)" using DL by (simp only: of_int_less_iff)
      then have "rat_of_int D < 10 powi int L" by (simp add: power_int_def)
      then have "of_int D * 10 powi k < 10 powi int L * (10::rat) powi k"
        using pk by (simp only: mult_strict_right_mono)
      then show ?thesis by (simp add: qk power_int_add add.commute)
    qed
    ultimately show False using assms(2) by linarith
  qed
  have upper: "k < 12"
  proof (rule ccontr)
    assume "\<not> k < 12"
    then have "(10::rat) powi 12 \<le> 10 powi k" by (intro power_int_increasing) simp_all
    moreover have "(10::rat) powi k \<le> q"
    proof -
      have "1 * (10::rat) powi k \<le> of_int D * 10 powi k"
        using D1 pk by (intro mult_right_mono) simp_all
      then show ?thesis by (simp add: qk)
    qed
    ultimately show False using assms(3) by linarith
  qed
  have f: "int (length ds2) \<le> 16000" using len assms(4) by linarith
  have "\<not> (1073741823 < \<bar>ex\<bar> \<or> 16383 < int (length ds2) - ex)"
    using lower upper f by (simp add: k_def)
  then show ?thesis using pd by simp
qed

lemma numeric_in_literal:
  assumes "numeric_literal t = Some q" and "10 powi (- 4) \<le> \<bar>q\<bar>" and "\<bar>q\<bar> < 10 powi 12"
    and "length t \<le> 16000"
  shows "numeric_in t = Some q"
proof -
  from assms(1) obtain c r where t: "t = c # r"
    by (cases t) (auto simp: numeric_literal_def)
  have pos: "pg_unsigned u = Some q'" if "unsigned_literal u = Some q'" "\<bar>q'\<bar> = \<bar>q\<bar>"
    "length u \<le> length t" for u q'
  proof -
    have "0 \<le> q'" using unsigned_literal_nonneg [OF that(1)] .
    then have "q' = \<bar>q\<bar>" using that(2) by simp
    then have "pg_decimal u = Some q'"
      using that(1,3) assms(2,3,4) by (intro pg_decimal_literal) simp_all
    then show ?thesis using pg_unsigned_literal [OF that(1)] by simp
  qed
  show ?thesis
  proof (cases "c = CHR ''-''")
    case True
    then obtain q' where q': "unsigned_literal r = Some q'" "q = - q'"
      using assms(1) t by (auto simp: numeric_literal_def)
    then have "pg_unsigned r = Some q'" using t by (intro pos) simp_all
    then show ?thesis using True t q'(2) by (simp add: numeric_in_def)
  next
    case False
    show ?thesis
    proof (cases "c = CHR ''+''")
      case True
      then have "unsigned_literal r = Some q"
        using assms(1) t by (auto simp: numeric_literal_def)
      then have "pg_unsigned r = Some q" using t by (intro pos) simp_all
      then show ?thesis using True t by (simp add: numeric_in_def)
    next
      case p: False
      then have "unsigned_literal t = Some q"
        using assms(1) t False by (auto simp: numeric_literal_def)
      then have "pg_unsigned t = Some q" by (intro pos) simp_all
      then show ?thesis using False p t by (simp add: numeric_in_def)
    qed
  qed
qed

lemma numeric_12_2_literal:
  assumes "numeric_literal t = Some q" and "10 powi (- 4) \<le> \<bar>q\<bar>" and "\<bar>q\<bar> < 10 powi 12"
    and "length t \<le> 16000"
  shows "numeric_12_2 t =
           (if \<bar>round_half_away (q * 100)\<bar> < 10 ^ 12
            then Some (numeric_out (round_half_away (q * 100))) else None)"
proof -
  obtain c r where t: "t = c # r" "\<not> pg_space c" "lower c \<noteq> CHR ''n''"
    using numeric_literal_ends(1) [OF assms(1)] by blast
  obtain r' d where t': "t = r' @ [d]" "\<not> pg_space d"
    using numeric_literal_ends(2) [OF assms(1)] by blast
  have 1: "dropWhile pg_space t = t" using t by simp
  have 2: "dropWhile pg_space (rev t) = rev t" using t' by simp
  have 3: "map lower t \<noteq> ''nan''" using t by auto
  show ?thesis
    using numeric_in_literal [OF assms] 3 by (simp add: numeric_12_2_def 1 2 Let_def)
qed

lemma length_digits_of_int_le:
  "0 \<le> n \<Longrightarrow> n < 10 ^ Suc k \<Longrightarrow> length (digits_of_int n) \<le> Suc k"
proof (induction k arbitrary: n)
  case 0
  then show ?case by (subst digits_of_int.simps) simp
next
  case (Suc k)
  show ?case
  proof (cases "n < 10")
    case True
    then show ?thesis by (subst digits_of_int.simps) simp
  next
    case False
    have "n div 10 < 10 ^ Suc k" using Suc.prems(2) by simp
    moreover have "0 \<le> n div 10" using Suc.prems(1) by simp
    ultimately have "length (digits_of_int (n div 10)) \<le> Suc k" by (rule Suc.IH [rotated])
    then show ?thesis using False by (subst digits_of_int.simps) simp
  qed
qed

lemma length_numeric_out: "\<bar>c\<bar> < 10 ^ 12 \<Longrightarrow> length (numeric_out c) \<le> 16"
proof -
  assume c: "\<bar>c\<bar> < 10 ^ 12"
  have "\<bar>c\<bar> div 100 < 10 ^ Suc 11" using c by simp
  then have "length (digits_of_int (\<bar>c\<bar> div 100)) \<le> Suc 11"
    by (intro length_digits_of_int_le) simp_all
  then show ?thesis by (cases "c < 0") (simp_all add: numeric_out_def cents_text_def abs_if)
qed

lemma column_zero: "numeric_12_2 (numeric_out 0) = Some (numeric_out 0)"
  by code_simp

lemma numeric_12_2_numeric_out:
  "\<bar>c\<bar> < 10 ^ 12 \<Longrightarrow> numeric_12_2 (numeric_out c) = Some (numeric_out c)"
proof (cases "c = 0")
  case True
  then show ?thesis by (simp only: column_zero)
next
  case False
  assume c: "\<bar>c\<bar> < 10 ^ 12"
  have r: "rat_of_int c / 100 * 100 = of_int c" by simp
  have "1 \<le> \<bar>c\<bar>" using False by linarith
  then have "rat_of_int 1 \<le> rat_of_int \<bar>c\<bar>" by (simp only: of_int_le_iff)
  then have lo: "10 powi (- 4) \<le> \<bar>rat_of_int c / 100\<bar>" by (simp add: power_int_minus)
  have "rat_of_int \<bar>c\<bar> < rat_of_int (10 ^ 12)" using c by (simp only: of_int_less_iff)
  then have hi: "\<bar>rat_of_int c / 100\<bar> < 10 powi 12" by simp
  have len: "length (numeric_out c) \<le> 16000" using length_numeric_out [OF c] by linarith
  show ?thesis
    using c numeric_12_2_literal [OF numeric_literal_numeric_out lo hi len] r
    by (simp add: round_half_away_of_int)
qed
section \<open>Rounding to a double: how far the result is from the value\<close>

lemma bitlen_powi:
  assumes "0 < (x::int)"
  shows "2 powi (bitlen x - 1) \<le> rat_of_int x" and "rat_of_int x < 2 powi (bitlen x)"
proof -
  have b: "1 \<le> bitlen x" using assms by (simp add: bitlen_alt_def)
  have "2 ^ nat (bitlen x - 1) \<le> x" and "x < 2 ^ nat (bitlen x)"
    using bitlen_bounds [OF assms] by simp_all
  then have "rat_of_int (2 ^ nat (bitlen x - 1)) \<le> rat_of_int x"
    and "rat_of_int x < rat_of_int (2 ^ nat (bitlen x))"
    by (simp_all only: of_int_le_iff of_int_less_iff)
  then show "2 powi (bitlen x - 1) \<le> rat_of_int x" and "rat_of_int x < 2 powi (bitlen x)"
    using b by (simp_all add: power_int_nonneg_exp)
qed

lemma binade_bounds:
  assumes "0 < q"
  shows "2 powi (binade q) \<le> q" and "q < 2 powi (binade q + 1)"
proof -
  obtain n d where nd: "quotient_of q = (n, d)" by (cases "quotient_of q")
  have d: "0 < d" using nd quotient_of_denom_pos by blast
  have q: "q = of_int n / of_int d" using nd by (rule quotient_of_div)
  have n: "0 < n" using assms d q by (simp add: zero_less_divide_iff)
  define k where "k = bitlen n - bitlen d"
  have lo: "2 powi (k - 1) < q"
  proof -
    have "2 powi (k - 1) = 2 powi (bitlen n - 1) / (2 powi (bitlen d) :: rat)"
      by (simp add: k_def power_int_diff [symmetric] algebra_simps)
    also have "\<dots> \<le> of_int n / 2 powi (bitlen d)"
      using bitlen_powi(1) [OF n] by (simp add: divide_right_mono)
    also have "\<dots> < of_int n / of_int d"
      using bitlen_powi(2) [OF d] n d by (simp add: divide_strict_left_mono)
    finally show ?thesis using q by simp
  qed
  have hi: "q < 2 powi (k + 1)"
  proof -
    have "q = of_int n / of_int d" by (rule q)
    also have "\<dots> < 2 powi (bitlen n) / of_int d"
      using bitlen_powi(2) [OF n] d by (simp add: divide_strict_right_mono)
    also have "\<dots> \<le> 2 powi (bitlen n) / (2 powi (bitlen d - 1) :: rat)"
      using bitlen_powi(1) [OF d] d by (simp add: divide_left_mono)
    also have "\<dots> = 2 powi (k + 1)"
      by (simp add: k_def power_int_diff [symmetric] algebra_simps)
    finally show ?thesis .
  qed
  have b: "binade q = (if 2 powi k \<le> q then k else k - 1)"
    by (simp add: binade_def nd binade_from_def k_def)
  show "2 powi (binade q) \<le> q" using lo by (simp add: b)
  show "q < 2 powi (binade q + 1)" using hi by (auto simp: b)
qed

lemma binade_le:
  assumes "0 < q" and "q < 2 powi e"
  shows "binade q < e"
proof (rule ccontr)
  assume "\<not> binade q < e"
  then have "e \<le> binade q" by simp
  then have "(2::rat) powi e \<le> 2 powi (binade q)" by (simp add: power_int_increasing)
  then show False using binade_bounds(1) [OF assms(1)] assms(2) by linarith
qed

lemma binade_ge:
  assumes "0 < q" and "2 powi e \<le> q"
  shows "e \<le> binade q"
proof (rule ccontr)
  assume "\<not> e \<le> binade q"
  then have "binade q + 1 \<le> e" by simp
  then have "(2::rat) powi (binade q + 1) \<le> 2 powi e" by (simp add: power_int_increasing)
  then show False using binade_bounds(2) [OF assms(1)] assms(2) by linarith
qed

lemma round_half_even_near: "\<bar>of_int (round_half_even q) - q\<bar> \<le> 1 / 2"
proof -
  have "of_int \<lfloor>q\<rfloor> \<le> q" "q < of_int \<lfloor>q\<rfloor> + 1" by linarith+
  then show ?thesis
    by (auto simp: round_half_even_def nearest_even_def abs_le_iff)
qed

lemma round_half_even_bound:
  assumes "\<bar>q\<bar> \<le> of_int b"
  shows "\<bar>round_half_even q\<bar> \<le> b"
proof -
  have le: "q \<le> of_int b" and ge: "- of_int b \<le> q" using assms by (simp_all add: abs_le_iff)
  have f1: "\<lfloor>q\<rfloor> \<le> b" using le by (simp add: floor_le_iff)
  have f2: "- b \<le> \<lfloor>q\<rfloor>" using ge by (simp add: le_floor_iff)
  have "round_half_even q \<le> b"
  proof (cases "\<lfloor>q\<rfloor> = b")
    case True
    then have "q = of_int b" using le by (metis of_int_floor_le order_antisym)
    then show ?thesis by (simp add: round_half_even_def nearest_even_def)
  next
    case False
    then have "\<lfloor>q\<rfloor> + 1 \<le> b" using f1 by simp
    then show ?thesis by (auto simp: round_half_even_def nearest_even_def)
  qed
  moreover have "- b \<le> round_half_even q"
    using f2 by (auto simp: round_half_even_def nearest_even_def)
  ultimately show ?thesis by (simp add: abs_le_iff)
qed

text \<open>
  A value whose binade (raised to that of the subnormals) is \<open>e \<le> 1022\<close> rounds to a
  finite double at most half a unit \<open>2^(e-52)\<close> away.
\<close>

lemma fl_error:
  assumes "q \<noteq> 0" and "e = max (binade \<bar>q\<bar>) (- 1022)" and "e \<le> 1022"
  shows "\<exists>r. fl q = Fin r \<and> \<bar>r - q\<bar> \<le> 2 powi (e - 53)"
proof -
  define u :: rat where "u = 2 powi (e - 52)"
  define m where "m = round_half_even (q / u)"
  have u: "0 < u" by (simp add: u_def)
  have near: "\<bar>of_int m - q / u\<bar> \<le> 1 / 2" unfolding m_def by (rule round_half_even_near)
  have "of_int m * u - q = (of_int m - q / u) * u"
    using u by (simp add: left_diff_distrib)
  then have "\<bar>of_int m * u - q\<bar> = \<bar>of_int m - q / u\<bar> * u"
    using u by (simp add: abs_mult)
  also have "\<dots> \<le> 1 / 2 * u" using near u by (simp add: mult_right_mono)
  also have "\<dots> = 2 powi (e - 53)"
    by (simp add: u_def) (simp add: power_int_diff)
  finally have err: "\<bar>of_int m * u - q\<bar> \<le> 2 powi (e - 53)" .
  have "fl q = fl_pack q e m"
    using assms(1,2) by (simp add: fl_def fl_exp_def m_def u_def)
  also have "\<dots> = Fin (of_int m * u)"
    using assms(3) by (simp add: fl_pack_def u_def)
  finally show ?thesis using err by blast
qed

lemma fl_zero: "fl 0 = Fin 0"
  by (simp add: fl_def)

lemma fl_below:
  assumes "\<bar>q\<bar> < 2 powi E" and "- 1022 < E" and "E \<le> 1023"
  shows "\<exists>r. fl q = Fin r \<and> \<bar>r - q\<bar> \<le> 2 powi (E - 54)"
proof (cases "q = 0")
  case True
  then show ?thesis by (simp add: fl_zero)
next
  case False
  define e where "e = max (binade \<bar>q\<bar>) (- 1022)"
  have "binade \<bar>q\<bar> < E" using False assms(1) by (simp add: binade_le)
  then have e: "e \<le> E - 1" using assms(2) by (simp add: e_def)
  then have "e \<le> 1022" using assms(3) by simp
  then obtain r where r: "fl q = Fin r" "\<bar>r - q\<bar> \<le> 2 powi (e - 53)"
    using fl_error [OF False e_def] by blast
  have "(2::rat) powi (e - 53) \<le> 2 powi (E - 54)"
    using e by (simp add: power_int_increasing)
  then show ?thesis using r by (meson order_trans)
qed

lemma fl_relative:
  assumes "2 powi (- 1022) \<le> \<bar>q\<bar>" and "\<bar>q\<bar> < 2 powi 1023"
  shows "\<exists>r. fl q = Fin r \<and> \<bar>r - q\<bar> \<le> \<bar>q\<bar> / 2 ^ 53"
proof -
  have pos: "0 < \<bar>q\<bar>"
  proof -
    have "(0::rat) < 2 powi (- 1022)" by simp
    then show ?thesis using assms(1) by linarith
  qed
  then have q: "q \<noteq> 0" by simp
  define e where "e = binade \<bar>q\<bar>"
  have ge: "- 1022 \<le> e" unfolding e_def using pos assms(1) by (rule binade_ge)
  have lt: "e < 1023" unfolding e_def using pos assms(2) by (rule binade_le)
  have "e = max (binade \<bar>q\<bar>) (- 1022)" using ge by (simp add: e_def)
  moreover have "e \<le> 1022" using lt by simp
  ultimately obtain r where r: "fl q = Fin r" "\<bar>r - q\<bar> \<le> 2 powi (e - 53)"
    using fl_error [OF q] by blast
  have "(2::rat) powi (e - 53) = 2 powi e / 2 ^ 53"
    by (simp add: power_int_diff)
  also have "\<dots> \<le> \<bar>q\<bar> / 2 ^ 53"
    using binade_bounds(1) [OF pos] by (simp add: e_def divide_right_mono)
  finally show ?thesis using r by (meson order_trans)
qed

lemma round_half_even_minus: "round_half_even (- q) = - round_half_even q"
proof (cases "q = of_int \<lfloor>q\<rfloor>")
  case True
  then obtain z where z: "q = of_int z" ..
  have "- rat_of_int z = of_int (- z)" by simp
  then have "\<lfloor>- rat_of_int z\<rfloor> = - z" by (simp only: floor_of_int)
  then show ?thesis by (simp add: round_half_even_def nearest_even_def z)
next
  case False
  define f where "f = \<lfloor>q\<rfloor>"
  have "of_int f \<le> q" unfolding f_def by (rule of_int_floor_le)
  moreover have "q \<noteq> of_int f" using False unfolding f_def .
  ultimately have lo: "of_int f < q" by linarith
  have hi: "q < of_int f + 1" unfolding f_def by linarith
  have fm: "\<lfloor>- q\<rfloor> = - f - 1"
    using lo hi by (simp add: floor_unique)
  show ?thesis
    using lo hi
    by (simp add: round_half_even_def nearest_even_def fm f_def [symmetric])
qed

lemma fl_minus: "fl (- q) = num_neg (fl q)"
proof (cases "q = 0")
  case True
  then show ?thesis by (simp add: fl_zero)
next
  case False
  have "round_half_even (- q / u) = - round_half_even (q / u)" for u
    using round_half_even_minus [of "q / u"] by simp
  then show ?thesis
    using False by (auto simp: fl_def fl_exp_def fl_pack_def)
qed

lemma num_add_cancel:
  "fl q = Fin r \<Longrightarrow> num_add (fl q) (fl (- q)) = Fin 0"
  "fl q = Fin r \<Longrightarrow> num_add (fl (- q)) (fl q) = Fin 0"
  "fl q = Fin r \<Longrightarrow> num_sub (fl q) (fl q) = Fin 0"
  by (simp_all add: fl_minus num_sub_def fl_zero)

subsection \<open>The decimal exponent\<close>

lemma declen_bounds:
  "0 < a \<Longrightarrow> 10 ^ nat (declen a - 1) \<le> a \<and> a < 10 ^ nat (declen a) \<and> 1 \<le> declen a"
proof (induction a rule: declen.induct)
  case (1 a)
  show ?case
  proof (cases "0 < a div 10")
    case True
    then have ih: "10 ^ nat (declen (a div 10) - 1) \<le> a div 10"
      "a div 10 < 10 ^ nat (declen (a div 10))" "1 \<le> declen (a div 10)"
      using 1 by simp_all
    have d: "declen a = declen (a div 10) + 1" using 1(2) by (subst declen.simps) simp
    have n: "nat (declen (a div 10)) = Suc (nat (declen (a div 10) - 1))" using ih(3) by simp
    have "10 ^ nat (declen (a div 10)) \<le> a"
    proof -
      have "10 * 10 ^ nat (declen (a div 10) - 1) \<le> 10 * (a div 10)" using ih(1) by simp
      also have "\<dots> \<le> a"
        using div_mult_mod_eq [of a 10] pos_mod_sign [of 10 a] by linarith
      finally show ?thesis by (subst n) simp
    qed
    moreover have "a < 10 ^ nat (declen (a div 10) + 1)"
    proof -
      have "a div 10 + 1 \<le> 10 ^ nat (declen (a div 10))" using ih(2) by simp
      then have "10 * (a div 10) + 10 \<le> 10 * 10 ^ nat (declen (a div 10))" by simp
      moreover have "a < 10 * (a div 10) + 10"
        using div_mult_mod_eq [of a 10] pos_mod_bound [of 10 a] by linarith
      moreover have "nat (declen (a div 10) + 1) = Suc (nat (declen (a div 10)))"
        using ih(3) by simp
      ultimately show ?thesis by simp
    qed
    ultimately show ?thesis using ih(3) by (simp add: d)
  next
    case False
    then have small: "a < 10" using 1(2) by simp
    have "declen (a div 10) = 0" using False by (subst declen.simps) simp
    then have "declen a = 1" using 1(2) by (subst declen.simps) simp
    then show ?thesis using 1(2) small by simp
  qed
qed

lemma declen_powi:
  assumes "0 < (a::int)"
  shows "10 powi (declen a - 1) \<le> rat_of_int a" and "rat_of_int a < 10 powi (declen a)"
proof -
  have b: "1 \<le> declen a" using declen_bounds [OF assms] by simp
  have "10 ^ nat (declen a - 1) \<le> a" and "a < 10 ^ nat (declen a)"
    using declen_bounds [OF assms] by simp_all
  then have "rat_of_int (10 ^ nat (declen a - 1)) \<le> rat_of_int a"
    and "rat_of_int a < rat_of_int (10 ^ nat (declen a))"
    by (simp_all only: of_int_le_iff of_int_less_iff)
  then show "10 powi (declen a - 1) \<le> rat_of_int a" and "rat_of_int a < 10 powi (declen a)"
    using b by (simp_all add: power_int_nonneg_exp)
qed

lemma dec_exp_bounds:
  assumes "0 < q"
  shows "10 powi (dec_exp q - 1) \<le> q" and "q < 10 powi (dec_exp q)"
proof -
  obtain n d where nd: "quotient_of q = (n, d)" by (cases "quotient_of q")
  have d: "0 < d" using nd quotient_of_denom_pos by blast
  have q: "q = of_int n / of_int d" using nd by (rule quotient_of_div)
  have n: "0 < n" using assms d q by (simp add: zero_less_divide_iff)
  define k where "k = declen n - declen d"
  have lo: "10 powi (k - 1) < q"
  proof -
    have "10 powi (k - 1) = 10 powi (declen n - 1) / (10 powi (declen d) :: rat)"
      by (simp add: k_def power_int_diff [symmetric] algebra_simps)
    also have "\<dots> \<le> of_int n / 10 powi (declen d)"
      using declen_powi(1) [OF n] by (simp add: divide_right_mono)
    also have "\<dots> < of_int n / of_int d"
      using declen_powi(2) [OF d] n d by (simp add: divide_strict_left_mono)
    finally show ?thesis using q by simp
  qed
  have hi: "q < 10 powi (k + 1)"
  proof -
    have "q = of_int n / of_int d" by (rule q)
    also have "\<dots> < 10 powi (declen n) / of_int d"
      using declen_powi(2) [OF n] d by (simp add: divide_strict_right_mono)
    also have "\<dots> \<le> 10 powi (declen n) / (10 powi (declen d - 1) :: rat)"
      using declen_powi(1) [OF d] d by (simp add: divide_left_mono)
    also have "\<dots> = 10 powi (k + 1)"
      by (simp add: k_def power_int_diff [symmetric] algebra_simps)
    finally show ?thesis .
  qed
  have b: "dec_exp q = (if q < 10 powi k then k else k + 1)"
    by (simp add: dec_exp_def nd dec_exp_from_def k_def)
  show "10 powi (dec_exp q - 1) \<le> q" using lo by (auto simp: b)
  show "q < 10 powi (dec_exp q)" using hi by (simp add: b)
qed

lemma dec_exp_le:
  assumes "0 < q" and "q < 10 powi n"
  shows "dec_exp q \<le> n"
proof (rule ccontr)
  assume "\<not> dec_exp q \<le> n"
  then have "n \<le> dec_exp q - 1" by simp
  then have "(10::rat) powi n \<le> 10 powi (dec_exp q - 1)" by (simp add: power_int_increasing)
  then show False using dec_exp_bounds(1) [OF assms(1)] assms(2) by linarith
qed

lemma dec_exp_gt:
  assumes "0 < q" and "10 powi n \<le> q"
  shows "n < dec_exp q"
proof (rule ccontr)
  assume "\<not> n < dec_exp q"
  then have "dec_exp q \<le> n" by simp
  then have "(10::rat) powi (dec_exp q) \<le> 10 powi n" by (simp add: power_int_increasing)
  then show False using dec_exp_bounds(2) [OF assms(1)] assms(2) by linarith
qed

section \<open>\<open>toString\<close> read back by the column\<close>

lemma is_digit_zero: "is_digit CHR ''0''"
  by (simp add: is_digit_def)

lemma int_of_digits_zeros: "int_of_digits (replicate z CHR ''0'') = 0"
proof (induction z)
  case 0
  then show ?case by (simp add: int_of_digits_Nil)
next
  case (Suc z)
  have "replicate (Suc z) CHR ''0'' = replicate z CHR ''0'' @ [CHR ''0'']"
    by (simp add: replicate_append_same)
  then show ?case
    using Suc by (simp only: int_of_digits_append int_of_digits_single) (simp add: digit_of_def)
qed

lemma layout_value:
  assumes "10 ^ (k - 1) \<le> s" and "s < 10 ^ k" and "1 \<le> k" and "- 6 < n" and "n \<le> 21"
  shows "unsigned_literal (layout (digits_of_int s) k n) = Some (of_int s * 10 powi (n - int k))"
    and "\<exists>d r. layout (digits_of_int s) k n = d # r \<and> is_digit d"
proof -
  define ds where "ds = digits_of_int s"
  have s0: "0 \<le> s"
  proof -
    have "(0::int) \<le> 10 ^ (k - 1)" by simp
    then show ?thesis using assms(1) by linarith
  qed
  have k: "k = Suc (k - 1)" using assms(3) by simp
  have len: "length ds = k"
    unfolding ds_def using length_digits_of_int [of "k - 1" s] assms(1,2) k by simp
  have dig: "list_all is_digit ds" unfolding ds_def using s0 by (rule digits_of_int_digits)
  have val: "int_of_digits ds = s" unfolding ds_def using s0 by (rule int_of_digits_of_int)
  have ne: "ds \<noteq> []" using len assms(3) by auto
  consider (whole) "int k \<le> n" | (point) "0 < n" "n < int k" | (small) "n \<le> 0"
    by linarith
  then have "unsigned_literal (layout ds k n) = Some (of_int s * 10 powi (n - int k))
      \<and> (\<exists>d r. layout ds k n = d # r \<and> is_digit d)"
  proof cases
    case whole
    define z where "z = nat (n - int k)"
    have l: "layout ds k n = ds @ replicate z CHR ''0''"
      using whole assms(5) by (simp add: layout_def z_def)
    have "list_all is_digit (ds @ replicate z CHR ''0'')"
      using dig by (auto simp: list_all_iff is_digit_zero)
    moreover have "ds @ replicate z CHR ''0'' \<noteq> []" using ne by simp
    ultimately have "unsigned_literal (ds @ replicate z CHR ''0'')
        = Some (of_int (int_of_digits (ds @ replicate z CHR ''0'')))"
      by (rule unsigned_literal_integer)
    moreover have "int_of_digits (ds @ replicate z CHR ''0'') = s * 10 ^ z"
      by (simp add: int_of_digits_append int_of_digits_zeros val)
    moreover have "(10::rat) powi (n - int k) = 10 ^ z"
      using whole by (simp add: z_def power_int_nonneg_exp)
    moreover have "\<exists>d r. ds @ replicate z CHR ''0'' = d # r \<and> is_digit d"
      using ne dig by (cases ds) auto
    ultimately show ?thesis by (simp add: l)
  next
    case point
    define j where "j = nat n"
    have j: "0 < j" "j < k" using point by (simp_all add: j_def)
    have l: "layout ds k n = take j ds @ ''.'' @ drop j ds"
      using point assms(5) by (simp add: layout_def j_def)
    have 1: "list_all is_digit (take j ds)"
      using dig by (simp add: list_all_iff) (meson in_set_takeD)
    have 2: "take j ds \<noteq> []" using j ne by simp
    have 3: "list_all is_digit (drop j ds)"
      using dig by (simp add: list_all_iff) (meson in_set_dropD)
    have "unsigned_literal (take j ds @ ''.'' @ drop j ds)
        = Some (of_int (int_of_digits (take j ds @ drop j ds)) * 10 powi (- int (length (drop j ds))))"
      using 1 2 3 by (rule unsigned_literal_fixed)
    moreover have "- int (length (drop j ds)) = n - int k"
      using len j point by (simp add: j_def)
    moreover have "\<exists>d r. take j ds @ ''.'' @ drop j ds = d # r \<and> is_digit d"
      using 1 2 by (cases "take j ds") auto
    ultimately show ?thesis by (simp add: l val)
  next
    case small
    define zs where "zs = replicate (nat (- n)) CHR ''0''"
    have l: "layout ds k n = ''0'' @ ''.'' @ (zs @ ds)"
      using small assms(3,4) by (simp add: layout_def zs_def)
    have 1: "list_all is_digit ''0''" by (simp add: is_digit_zero)
    have 3: "list_all is_digit (zs @ ds)"
      using dig by (auto simp: list_all_iff zs_def is_digit_zero)
    have "unsigned_literal (''0'' @ ''.'' @ (zs @ ds))
        = Some (of_int (int_of_digits (''0'' @ (zs @ ds))) * 10 powi (- int (length (zs @ ds))))"
      using 1 _ 3 by (rule unsigned_literal_fixed) simp
    moreover have "int_of_digits (''0'' @ (zs @ ds)) = s"
    proof -
      have "''0'' @ (zs @ ds) = replicate (Suc (nat (- n))) CHR ''0'' @ ds"
        by (simp add: zs_def)
      then show ?thesis
        by (simp only: int_of_digits_append [of "replicate (Suc (nat (- n))) CHR ''0''"]
            int_of_digits_zeros val)
    qed
    moreover have "- int (length (zs @ ds)) = n - int k"
      using len small by (simp add: zs_def)
    ultimately show ?thesis by (simp add: l is_digit_zero)
  qed
  then show "unsigned_literal (layout (digits_of_int s) k n) = Some (of_int s * 10 powi (n - int k))"
    and "\<exists>d r. layout (digits_of_int s) k n = d # r \<and> is_digit d"
    by (simp_all add: ds_def)
qed

lemma layout_length:
  assumes "length ds = k" and "- 6 < n" and "n \<le> 21"
  shows "length (layout ds k n) \<le> k + 21"
  using assms by (auto simp: layout_def)

lemma floor_le_round_half_even: "\<lfloor>q\<rfloor> \<le> round_half_even q"
  by (simp add: round_half_even_def nearest_even_def)

text \<open>The quotient of a positive value by the unit of \<open>k\<close> significant digits.\<close>

lemma scaled_bounds:
  assumes "0 < q" and "n = dec_exp q" and "1 \<le> k"
  shows "10 ^ (k - 1) \<le> \<lfloor>q / 10 powi (n - int k)\<rfloor>"
    and "\<lfloor>q / 10 powi (n - int k)\<rfloor> < 10 ^ k"
    and "q / 10 powi (n - int k) < 10 ^ k"
    and "10 ^ (k - 1) \<le> q / 10 powi (n - int k)"
proof -
  define u :: rat where "u = 10 powi (n - int k)"
  have u: "0 < u" by (simp add: u_def)
  have ueq: "u = 10 powi n / 10 ^ k" by (simp add: u_def power_int_diff)
  have k: "(10::rat) ^ k = 10 * 10 ^ (k - 1)"
    using assms(3) by (cases k) simp_all
  have hi: "q / u < 10 ^ k"
  proof -
    have "q < 10 powi n" using dec_exp_bounds(2) [OF assms(1)] assms(2) by simp
    also have "\<dots> = 10 ^ k * u" by (simp add: ueq)
    finally show ?thesis using u by (simp add: pos_divide_less_eq)
  qed
  have lo: "10 ^ (k - 1) \<le> q / u"
  proof -
    have "(10::rat) powi (n - 1) = 10 powi n / 10" by (simp add: power_int_diff)
    also have "\<dots> = 10 ^ (k - 1) * u" by (simp add: ueq k)
    finally have "10 ^ (k - 1) * u \<le> q"
      using dec_exp_bounds(1) [OF assms(1)] assms(2) by simp
    then show ?thesis using u by (simp add: pos_le_divide_eq)
  qed
  show "q / 10 powi (n - int k) < 10 ^ k" using hi by (simp add: u_def)
  show "10 ^ (k - 1) \<le> q / 10 powi (n - int k)" using lo by (simp add: u_def)
  have "q / u < rat_of_int (10 ^ k)" using hi by simp
  then have "\<lfloor>q / u\<rfloor> < 10 ^ k" by (simp only: floor_less_iff)
  then show "\<lfloor>q / 10 powi (n - int k)\<rfloor> < 10 ^ k" by (simp add: u_def)
  have "rat_of_int (10 ^ (k - 1)) \<le> q / u" using lo by simp
  then have "10 ^ (k - 1) \<le> \<lfloor>q / u\<rfloor>" by (simp only: le_floor_iff)
  then show "10 ^ (k - 1) \<le> \<lfloor>q / 10 powi (n - int k)\<rfloor>" by (simp add: u_def)
qed


lemma nearer_first_set: "set (nearer_first q u lo) = {lo, lo + 1}"
  by (auto simp: nearer_first_def)

lemma candidates_props:
  assumes "0 < q" and "n = dec_exp q" and "1 \<le> k" and "candidates q n k = s # rest"
  shows "10 ^ (k - 1) \<le> s" and "s \<le> 10 ^ k"
    and "fl (of_int s * 10 powi (n - int k)) = Fin q"
proof -
  define u :: rat where "u = 10 powi (n - int k)"
  have "s \<in> set (candidates q n k)" using assms(4) by simp
  then have rb: "reads_back q u s" and s: "s = \<lfloor>q / u\<rfloor> \<or> s = \<lfloor>q / u\<rfloor> + 1"
    by (auto simp: candidates_def candidates_unit_def nearer_first_set u_def)
  show "fl (of_int s * 10 powi (n - int k)) = Fin q"
    using rb by (simp add: reads_back_def u_def)
  have "10 ^ (k - 1) \<le> \<lfloor>q / u\<rfloor>" and "\<lfloor>q / u\<rfloor> < 10 ^ k"
    using scaled_bounds(1,2) [OF assms(1,2,3)] by (simp_all add: u_def)
  then show "10 ^ (k - 1) \<le> s" and "s \<le> 10 ^ k" using s by auto
qed

lemma shortest_props:
  assumes "0 < q" and "n = dec_exp q" and "1 \<le> k" and "shortest q n k fuel = (s, k')"
  shows "1 \<le> k' \<and> k' \<le> k + fuel \<and> 10 ^ (k' - 1) \<le> s \<and> s \<le> 10 ^ k'
       \<and> (fl (of_int s * 10 powi (n - int k')) = Fin q
          \<or> (k' = k + fuel
              \<and> \<bar>of_int s * 10 powi (n - int k') - q\<bar> \<le> 10 powi (n - int k') / 2))"
  using assms(3,4)
proof (induction fuel arbitrary: k)
  case 0
  define u :: rat where "u = 10 powi (n - int k)"
  have u: "0 < u" by (simp add: u_def)
  have s: "s = round_half_even (q / u)" and k': "k' = k" using 0(2) by (auto simp: u_def)
  have near: "\<bar>of_int s - q / u\<bar> \<le> 1 / 2" unfolding s by (rule round_half_even_near)
  have "of_int s * u - q = (of_int s - q / u) * u" using u by (simp add: left_diff_distrib)
  then have "\<bar>of_int s * u - q\<bar> = \<bar>of_int s - q / u\<bar> * u" using u by (simp add: abs_mult)
  also have "\<dots> \<le> 1 / 2 * u" using near u by (simp add: mult_right_mono)
  finally have err: "\<bar>of_int s * u - q\<bar> \<le> u / 2" by simp
  have lo: "10 ^ (k - 1) \<le> s"
    using scaled_bounds(1) [OF assms(1,2) 0(1)] floor_le_round_half_even [of "q / u"]
    by (simp add: s u_def)
  have "\<bar>q / u\<bar> \<le> rat_of_int (10 ^ k)"
    using scaled_bounds(3) [OF assms(1,2) 0(1)] assms(1) u by (simp add: u_def)
  then have "\<bar>round_half_even (q / u)\<bar> \<le> 10 ^ k" by (rule round_half_even_bound)
  then have hi: "s \<le> 10 ^ k" by (simp add: s)
  show ?case using 0(1) lo hi err by (simp add: k' u_def)
next
  case (Suc fuel)
  show ?case
  proof (cases "candidates q n k")
    case Nil
    then have "shortest q n (Suc k) fuel = (s, k')" using Suc.prems(2) by simp
    then have "1 \<le> k' \<and> k' \<le> Suc k + fuel \<and> 10 ^ (k' - 1) \<le> s \<and> s \<le> 10 ^ k'
       \<and> (fl (of_int s * 10 powi (n - int k')) = Fin q
          \<or> (k' = Suc k + fuel
              \<and> \<bar>of_int s * 10 powi (n - int k') - q\<bar> \<le> 10 powi (n - int k') / 2))"
      by (intro Suc.IH) simp_all
    then show ?thesis by simp
  next
    case (Cons c rest)
    then have "s = c" and "k' = k" using Suc.prems(2) by simp_all
    then show ?thesis
      using candidates_props [OF assms(1,2) Suc.prems(1) Cons] Suc.prems(1) by simp
  qed
qed

lemma shortest_digits_props:
  assumes "0 < q" and "shortest_digits q = (s, k, n')"
  shows "1 \<le> k" and "10 ^ (k - 1) \<le> s" and "s < 10 ^ k"
    and "dec_exp q \<le> n'" and "n' \<le> dec_exp q + 1"
    and "fl (of_int s * 10 powi (n' - int k)) = Fin q
         \<or> \<bar>of_int s * 10 powi (n' - int k) - q\<bar> \<le> 10 powi (dec_exp q - 17) / 2"
    and "k \<le> 17"
proof -
  define n where "n = dec_exp q"
  obtain s0 k0 where sh: "shortest q n 1 16 = (s0, k0)" by (cases "shortest q n 1 16")
  have p: "1 \<le> k0 \<and> k0 \<le> 1 + 16 \<and> 10 ^ (k0 - 1) \<le> s0 \<and> s0 \<le> 10 ^ k0
       \<and> (fl (of_int s0 * 10 powi (n - int k0)) = Fin q
          \<or> (k0 = 1 + 16
              \<and> \<bar>of_int s0 * 10 powi (n - int k0) - q\<bar> \<le> 10 powi (n - int k0) / 2))"
    using shortest_props [OF assms(1) n_def _ sh] by simp
  have nd: "normal_digits n (s0, k0) = (s, k, n')"
    using assms(2) sh by (simp add: shortest_digits_def digits_from_def n_def)
  have k: "k = k0" using nd by (simp split: if_splits)
  have k0: "(10::int) ^ k0 = 10 * 10 ^ (k0 - 1)" using p by (cases k0) simp_all
  have k0r: "(10::rat) ^ k0 = 10 * 10 ^ (k0 - 1)" using p by (cases k0) simp_all
  have val: "rat_of_int s * 10 powi (n' - int k) = of_int s0 * 10 powi (n - int k0)"
  proof (cases "s0 = 10 ^ k0")
    case True
    then have "s = 10 ^ (k0 - 1)" and "n' = n + 1" using nd by auto
    moreover have "(10::rat) powi (n + 1 - int k0) = 10 * 10 powi (n - int k0)"
      by (simp add: power_int_diff power_int_add)
    ultimately show ?thesis using True k by (simp add: k0r)
  next
    case False
    then show ?thesis using nd by simp
  qed
  show "1 \<le> k" using p k by simp
  show "k \<le> 17" using p k by simp
  show "10 ^ (k - 1) \<le> s" using p nd k by (auto split: if_splits)
  show "s < 10 ^ k" using p nd k0 by (auto split: if_splits)
  show "dec_exp q \<le> n'" and "n' \<le> dec_exp q + 1"
    using nd by (auto simp: n_def split: if_splits)
  have "(10::rat) powi (n - int k0) / 2 = 10 powi (n - 17) / 2" if "k0 = 1 + 16"
    using that by simp
  then show "fl (of_int s * 10 powi (n' - int k)) = Fin q
         \<or> \<bar>of_int s * 10 powi (n' - int k) - q\<bar> \<le> 10 powi (dec_exp q - 17) / 2"
    using p unfolding val n_def [symmetric] by auto
qed

lemma render_positive_value:
  assumes "10 powi (- 3) \<le> q" and "q < 10 powi 11"
  shows "\<exists>y. unsigned_literal (render_positive q) = Some y \<and> \<bar>y - q\<bar> \<le> 2 powi (- 14)
           \<and> (\<exists>d r. render_positive q = d # r \<and> is_digit d)
           \<and> length (render_positive q) \<le> 38"
proof -
  have q: "0 < q"
  proof -
    have "(0::rat) < 10 powi (- 3)" by simp
    then show ?thesis using assms(1) by linarith
  qed
  define n where "n = dec_exp q"
  have n: "- 3 < n" "n \<le> 11"
    using dec_exp_gt [OF q assms(1)] dec_exp_le [OF q assms(2)] by (simp_all add: n_def)
  obtain s k n' where sd: "shortest_digits q = (s, k, n')" by (cases "shortest_digits q")
  note p = shortest_digits_props [OF q sd]
  have n': "- 6 < n'" "n' \<le> 12" using p(4,5) n by (simp_all add: n_def)
  define y where "y = rat_of_int s * 10 powi (n' - int k)"
  have l: "unsigned_literal (layout (digits_of_int s) k n') = Some y"
    and h: "\<exists>d r. layout (digits_of_int s) k n' = d # r \<and> is_digit d"
    using layout_value [OF p(2,3,1) n'(1)] n'(2) by (simp_all add: y_def)
  have rp: "render_positive q = layout (digits_of_int s) k n'"
    by (simp add: render_positive_def sd)
  have "length (digits_of_int s) = k"
    using length_digits_of_int [of "k - 1" s] p(1,2,3) by simp
  then have "length (layout (digits_of_int s) k n') \<le> k + 21"
    using n' by (intro layout_length) simp_all
  then have ln: "length (render_positive q) \<le> 38" using p(7) rp by simp
  have s: "0 < s"
  proof -
    have "(0::int) < 10 ^ (k - 1)" by simp
    then show ?thesis using p(2) by linarith
  qed
  have y0: "0 < y" using s by (simp add: y_def)
  have "y < 10 ^ k * 10 powi (n' - int k)"
  proof -
    have "rat_of_int s < rat_of_int (10 ^ k)" using p(3) by (simp only: of_int_less_iff)
    then show ?thesis by (simp add: y_def)
  qed
  also have "\<dots> = 10 powi n'" by (simp add: power_int_diff)
  also have "\<dots> \<le> 10 powi 12" using n'(2) by (intro power_int_increasing) simp_all
  also have "\<dots> < 2 powi 40" by simp
  finally have y40: "\<bar>y\<bar> < 2 powi 40" using y0 by simp
  have "\<bar>y - q\<bar> \<le> 2 powi (- 14)"
    using p(6)
  proof
    assume "fl (rat_of_int s * 10 powi (n' - int k)) = Fin q"
    then have "fl y = Fin q" by (simp add: y_def)
    moreover obtain r where "fl y = Fin r" "\<bar>r - y\<bar> \<le> 2 powi (40 - 54)"
      using fl_below [OF y40] by auto
    ultimately show ?thesis by (simp add: abs_minus_commute)
  next
    assume "\<bar>rat_of_int s * 10 powi (n' - int k) - q\<bar> \<le> 10 powi (dec_exp q - 17) / 2"
    then have "\<bar>y - q\<bar> \<le> 10 powi (n - 17) / 2" by (simp add: y_def n_def)
    also have "\<dots> \<le> 10 powi (- 6) / 2"
    proof -
      have "(10::rat) powi (n - 17) \<le> 10 powi (- 6)"
        using n(2) by (intro power_int_increasing) simp_all
      then show ?thesis by (rule divide_right_mono) simp
    qed
    also have "\<dots> \<le> 2 powi (- 14)" by simp
    finally show ?thesis .
  qed
  then show ?thesis using l h rp ln by auto
qed

lemma toString_value:
  assumes "x = 0 \<or> (10 powi (- 3) \<le> \<bar>x\<bar> \<and> \<bar>x\<bar> < 10 powi 11)"
  shows "\<exists>y. numeric_literal (toString (Fin x)) = Some y \<and> \<bar>y - x\<bar> \<le> 2 powi (- 14)
           \<and> length (toString (Fin x)) \<le> 39"
proof -
  consider (zero) "x = 0" | (pos) "0 < x" "10 powi (- 3) \<le> x" "x < 10 powi 11"
    | (neg) "x < 0" "10 powi (- 3) \<le> - x" "- x < 10 powi 11"
    using assms by (cases "0 < x") (auto simp: abs_if split: if_splits)
  then show ?thesis
  proof cases
    case zero
    have "unsigned_literal ''0'' = Some (of_int (int_of_digits ''0''))"
      by (rule unsigned_literal_integer) (simp_all add: is_digit_zero)
    then have "numeric_literal ''0'' = Some 0"
      by (simp add: numeric_literal_def int_of_digits_single digit_of_def)
    then show ?thesis using zero by simp
  next
    case pos
    obtain y d r where y: "unsigned_literal (render_positive x) = Some y"
      "\<bar>y - x\<bar> \<le> 2 powi (- 14)" "render_positive x = d # r" "is_digit d"
      "length (render_positive x) \<le> 38"
      using render_positive_value [OF pos(2,3)] by blast
    have "d \<noteq> CHR ''-''" "d \<noteq> CHR ''+''" using y(4) by (auto simp: is_digit_def)
    then have "numeric_literal (toString (Fin x)) = Some y"
      using pos(1) y(1,3) by (simp add: numeric_literal_def)
    moreover have "length (toString (Fin x)) \<le> 39" using pos(1) y(5) by simp
    ultimately show ?thesis using y(2) by blast
  next
    case neg
    obtain y where y: "unsigned_literal (render_positive (- x)) = Some y"
      "\<bar>y - (- x)\<bar> \<le> 2 powi (- 14)" "length (render_positive (- x)) \<le> 38"
      using render_positive_value [OF neg(2,3)] by blast
    have "numeric_literal (toString (Fin x)) = Some (- y)"
      using neg(1) y(1) by (simp add: numeric_literal_def)
    moreover have "\<bar>- y - x\<bar> = \<bar>y - (- x)\<bar>" by (simp add: abs_if)
    moreover have "length (toString (Fin x)) \<le> 39" using neg(1) y(3) by simp
    ultimately show ?thesis using y(2) by (metis)
  qed
qed

section \<open>The balance that \<open>createTransaction\<close> stores\<close>

lemma round_half_away_near:
  assumes "\<bar>q - of_int z\<bar> < 1 / 2"
  shows "round_half_away q = z"
proof -
  have a: "of_int z - 1 / 2 < q" "q < of_int z + 1 / 2" using assms by linarith+
  have 1: "\<lfloor>q + 1 / 2\<rfloor> = z" using a by (intro floor_unique) simp_all
  have 2: "\<lfloor>- q + 1 / 2\<rfloor> = - z" using a by (intro floor_unique) simp_all
  show ?thesis unfolding round_half_away_def 1 2 by simp
qed

text \<open>
  Two amounts of the column, in hundredths \<open>cb\<close> and \<open>ca\<close>, whose sum fits the column:
  their doubles are added, the sum is printed by \<open>toString\<close>, and the column reads the
  exact sum back.
\<close>

lemma zero_balance_text: "numeric_12_2 (toString (Fin 0)) = Some (numeric_out 0)"
  by code_simp

lemma added_balance_text:
  assumes "\<bar>cb\<bar> < 10 ^ 12" and "\<bar>ca\<bar> < 10 ^ 12" and "\<bar>cb + ca\<bar> < 10 ^ 12"
  shows "numeric_12_2 (toString (num_add (fl (of_int cb / 100)) (fl (of_int ca / 100))))
           = Some (numeric_out (cb + ca))"
proof -
  define qb :: rat where "qb = of_int cb / 100"
  define qa :: rat where "qa = of_int ca / 100"
  define c :: rat where "c = of_int (cb + ca) / 100"
  have c: "c = qb + qa" by (simp add: c_def qb_def qa_def add_divide_distrib)
  have small: "\<bar>rat_of_int z / 100\<bar> < 2 powi 34" if "\<bar>z\<bar> < 10 ^ 12" for z :: int
  proof -
    have "\<bar>rat_of_int z\<bar> < rat_of_int (10 ^ 12)"
      using that by (simp only: of_int_abs [symmetric] of_int_less_iff)
    then show ?thesis by simp
  qed
  obtain rb where rb: "fl qb = Fin rb" "\<bar>rb - qb\<bar> \<le> 2 powi (34 - 54)"
    using fl_below [OF small [OF assms(1)]] unfolding qb_def by auto
  obtain ra where ra: "fl qa = Fin ra" "\<bar>ra - qa\<bar> \<le> 2 powi (34 - 54)"
    using fl_below [OF small [OF assms(2)]] unfolding qa_def by auto
  have sum: "num_add (fl qb) (fl qa) = fl (rb + ra)" by (simp add: rb ra)
  have near: "\<bar>rb + ra - c\<bar> \<le> 2 powi (- 19)"
  proof -
    have "\<bar>rb + ra - c\<bar> \<le> \<bar>rb - qb\<bar> + \<bar>ra - qa\<bar>" unfolding c by linarith
    also have "\<dots> \<le> 2 powi (- 20) + 2 powi (- 20)" using rb(2) ra(2) by simp
    also have "\<dots> = 2 powi (- 19)" by simp
    finally show ?thesis .
  qed
  have cbound: "\<bar>c\<bar> < 10 ^ 10"
  proof -
    have "\<bar>rat_of_int (cb + ca)\<bar> < rat_of_int (10 ^ 12)"
      using assms(3) by (simp only: of_int_abs [symmetric] of_int_less_iff)
    then show ?thesis by (simp add: c_def)
  qed
  have "numeric_12_2 (toString (num_add (fl qb) (fl qa))) = Some (numeric_out (cb + ca))"
  proof (cases "cb + ca = 0")
    case True
    then have "ca = - cb" by simp
    then have "qa = - qb" by (simp add: qa_def qb_def)
    then have "num_add (fl qb) (fl qa) = Fin 0"
      using num_add_cancel(1) [OF rb(1)] by simp
    then show ?thesis using True zero_balance_text by simp
  next
    case False
    then have "1 \<le> \<bar>cb + ca\<bar>" by simp
    then have "rat_of_int 1 \<le> \<bar>rat_of_int (cb + ca)\<bar>"
      by (simp only: of_int_abs [symmetric] of_int_le_iff)
    then have clow: "1 / 100 \<le> \<bar>c\<bar>" by (simp add: c_def)
    have s34: "\<bar>rb + ra\<bar> < 2 powi 34"
    proof -
      have "\<bar>rb + ra\<bar> \<le> \<bar>c\<bar> + \<bar>rb + ra - c\<bar>" by linarith
      also have "\<dots> < 10 ^ 10 + 2 powi (- 19)" using cbound near by linarith
      also have "\<dots> < 2 powi 34" by simp
      finally show ?thesis .
    qed
    obtain x where x: "fl (rb + ra) = Fin x" "\<bar>x - (rb + ra)\<bar> \<le> 2 powi (34 - 54)"
      using fl_below [OF s34] by auto
    have xc: "\<bar>x - c\<bar> \<le> 2 powi (- 18)"
    proof -
      have "\<bar>x - c\<bar> \<le> \<bar>x - (rb + ra)\<bar> + \<bar>rb + ra - c\<bar>" by linarith
      also have "\<dots> \<le> 2 powi (- 20) + 2 powi (- 19)" using x(2) near by simp
      also have "\<dots> \<le> 2 powi (- 18)" by simp
      finally show ?thesis .
    qed
    have "10 powi (- 3) \<le> \<bar>x\<bar>"
    proof -
      have "\<bar>c\<bar> \<le> \<bar>x\<bar> + \<bar>x - c\<bar>" by linarith
      then have "1 / 100 - 2 powi (- 18) \<le> \<bar>x\<bar>" using clow xc by linarith
      moreover have "(10::rat) powi (- 3) \<le> 1 / 100 - 2 powi (- 18)" by simp
      ultimately show ?thesis by linarith
    qed
    moreover have "\<bar>x\<bar> < 10 powi 11"
    proof -
      have "\<bar>x\<bar> \<le> \<bar>c\<bar> + \<bar>x - c\<bar>" by linarith
      also have "\<dots> < 10 ^ 10 + 2 powi (- 18)" using cbound xc by linarith
      also have "\<dots> < 10 powi 11" by simp
      finally show ?thesis .
    qed
    ultimately obtain y where y: "numeric_literal (toString (Fin x)) = Some y"
      "\<bar>y - x\<bar> \<le> 2 powi (- 14)" "length (toString (Fin x)) \<le> 39"
      using toString_value [of x] by blast
    have "\<bar>y - c\<bar> \<le> \<bar>y - x\<bar> + \<bar>x - c\<bar>" by linarith
    also have "\<dots> \<le> 2 powi (- 14) + 2 powi (- 18)" using y(2) xc by linarith
    also have "\<dots> < 1 / 200" by simp
    finally have yc: "\<bar>y - c\<bar> < 1 / 200" .
    have "c * 100 = of_int (cb + ca)" by (simp add: c_def)
    then have "\<bar>y * 100 - of_int (cb + ca)\<bar> = \<bar>(y - c) * 100\<bar>"
      by (simp only: left_diff_distrib)
    also have "\<dots> = \<bar>y - c\<bar> * \<bar>100\<bar>" by (rule abs_mult)
    also have "\<dots> < 1 / 2" using yc by simp
    finally have "\<bar>y * 100 - of_int (cb + ca)\<bar> < 1 / 2" .
    then have r: "round_half_away (y * 100) = cb + ca" by (rule round_half_away_near)
    have lo: "10 powi (- 4) \<le> \<bar>y\<bar>"
    proof -
      have "\<bar>c\<bar> \<le> \<bar>y\<bar> + \<bar>y - c\<bar>" by linarith
      then have "1 / 200 \<le> \<bar>y\<bar>" using clow yc by linarith
      moreover have "(10::rat) powi (- 4) \<le> 1 / 200" by simp
      ultimately show ?thesis by linarith
    qed
    have hi: "\<bar>y\<bar> < 10 powi 12"
    proof -
      have "\<bar>y\<bar> \<le> \<bar>c\<bar> + \<bar>y - c\<bar>" by linarith
      also have "\<dots> < 10 ^ 10 + 1 / 200" using cbound yc by linarith
      also have "\<dots> < 10 powi 12" by simp
      finally show ?thesis .
    qed
    have len: "length (toString (Fin x)) \<le> 16000" using y(3) by linarith
    have "numeric_12_2 (toString (Fin x)) = Some (numeric_out (cb + ca))"
      using numeric_12_2_literal [OF y(1) lo hi len] r assms(3) by simp
    then show ?thesis using sum x(1) by simp
  qed
  then show ?thesis by (simp add: qb_def qa_def)
qed

lemma find_map_balance:
  "find (\<lambda>a. ba_id a = i) (map (\<lambda>a. if ba_id a = i then a\<lparr>ba_balance := v\<rparr> else a) xs)
     = map_option (\<lambda>a. a\<lparr>ba_balance := v\<rparr>) (find (\<lambda>a. ba_id a = i) xs)"
  by (induction xs) simp_all

lemma numeric_12_2_cents:
  assumes "numeric_literal m = Some (of_int ca / 100)" and "\<bar>ca\<bar> < 10 ^ 12" and "ca \<noteq> 0"
    and "length m \<le> 16000"
  shows "numeric_12_2 m = Some (numeric_out ca)"
proof -
  have r: "rat_of_int ca / 100 * 100 = of_int ca" by simp
  have "1 \<le> \<bar>ca\<bar>" using assms(3) by linarith
  then have "rat_of_int 1 \<le> rat_of_int \<bar>ca\<bar>" by (simp only: of_int_le_iff)
  then have lo: "10 powi (- 4) \<le> \<bar>rat_of_int ca / 100\<bar>" by (simp add: power_int_minus)
  have "rat_of_int \<bar>ca\<bar> < rat_of_int (10 ^ 12)" using assms(2) by (simp only: of_int_less_iff)
  then have hi: "\<bar>rat_of_int ca / 100\<bar> < 10 powi 12" by simp
  show ?thesis
    using numeric_12_2_literal [OF assms(1) lo hi assms(4)] assms(2) r
    by (simp add: round_half_away_of_int)
qed

lemma getBankAccount_Inr:
  "getBankAccount i s = Inr r \<Longrightarrow> pg_text i \<and> find (\<lambda>a. ba_id a = i) (bankAccounts s) = r"
  by (cases "pg_text i") (simp_all add: getBankAccount_def)

text \<open>
  One call of \<open>createTransaction\<close> for an account whose balance is \<open>cb\<close> hundredths, with
  an amount of \<open>ca\<close> hundredths, when the new balance fits the column.
\<close>

lemma createTransaction_balance:
  assumes acc: "getBankAccount (it_accountId t) s = Inr (Some a)"
    and bal: "ba_balance a = numeric_out cb" "\<bar>cb\<bar> < 10 ^ 12"
    and amt: "numeric_literal (it_amount t) = Some (of_int ca / 100)" "\<bar>ca\<bar> < 10 ^ 12"
      "ca \<noteq> 0" "length (it_amount t) \<le> 16000"
    and texts: "pg_text (it_type t)" "pg_text (it_description t)"
    and fit: "\<bar>cb + (if it_type t = ''credit'' then ca else - ca)\<bar> < 10 ^ 12"
  shows "\<exists>s' row. createTransaction t s = (s', Inr row)
           \<and> transactions s' = transactions s @ [row]
           \<and> tx_accountId row = it_accountId t \<and> tx_amount row = numeric_out ca
           \<and> tx_type row = it_type t
           \<and> splitExpenses s' = splitExpenses s \<and> splitParticipants s' = splitParticipants s
           \<and> getBankAccount (it_accountId t) s'
               = Inr (Some (a\<lparr>ba_balance :=
                    numeric_out (cb + (if it_type t = ''credit'' then ca else - ca))\<rparr>))"
proof -
  define row where "row = \<lparr>tx_id = uuid (next_uuid s), tx_accountId = it_accountId t,
       tx_amount = numeric_out ca, tx_type = it_type t, tx_description = it_description t,
       tx_date = clock s, tx_createdAt = clock s\<rparr>"
  define s1 where "s1 = s\<lparr>transactions := transactions s @ [row], next_uuid := Suc (next_uuid s)\<rparr>"
  define d where "d = (if it_type t = ''credit'' then ca else - ca)"
  have idt: "pg_text (it_accountId t)"
    and fnd: "find (\<lambda>x. ba_id x = it_accountId t) (bankAccounts s) = Some a"
    using getBankAccount_Inr [OF acc] by simp_all
  have ins: "insert_transaction_row t s = (s1, Inr row)"
    using fnd idt texts numeric_12_2_cents [OF amt]
    by (simp add: insert_transaction_row_def row_def s1_def Let_def)
  have acc1: "getBankAccount (it_accountId t) s1 = Inr (Some a)"
    using fnd idt by (simp add: getBankAccount_def s1_def)
  have pb: "parseFloat (ba_balance a) = fl (of_int cb / 100)"
    by (simp add: bal(1) parseFloat_numeric_out)
  have pa: "parseFloat (it_amount t) = fl (of_int ca / 100)"
    using amt(1) by (rule parseFloat_numeric_literal)
  have new: "newBalance a t = num_add (fl (of_int cb / 100)) (fl (of_int d / 100))"
    by (simp add: newBalance_def pb pa d_def num_sub_def fl_minus [symmetric])
  have d: "\<bar>d\<bar> < 10 ^ 12" using amt(2) by (simp add: d_def)
  have stored: "numeric_12_2 (toString (num_add (fl (of_int cb / 100)) (fl (of_int d / 100))))
                = Some (numeric_out (cb + d))"
    using bal(2) d fit by (intro added_balance_text) (simp_all add: d_def)
  define s2 where "s2 = s1\<lparr>bankAccounts :=
      map (\<lambda>x. if ba_id x = it_accountId t then x\<lparr>ba_balance := numeric_out (cb + d)\<rparr> else x)
        (bankAccounts s1)\<rparr>"
  have upd: "updateBankAccountBalance (it_accountId t)
               (toString (num_add (fl (of_int cb / 100)) (fl (of_int d / 100)))) s1 = (s2, Inr ())"
    by (simp add: updateBankAccountBalance_def stored s2_def idt)
  have "createTransaction t s = (s2, Inr row)"
    by (simp add: createTransaction_def ins acc1 new upd)
  moreover have "getBankAccount (it_accountId t) s2
      = Inr (Some (a\<lparr>ba_balance := numeric_out (cb + d)\<rparr>))"
    using fnd idt by (simp add: getBankAccount_def s2_def s1_def find_map_balance)
  ultimately show ?thesis
    by (simp add: s2_def s1_def row_def d_def)
qed

lemma signed_cents_Some:
  assumes "signed_cents acc b = Some d"
  obtains t ca where "insertTransactionSchema b = Inr t" and "it_accountId t = acc"
    and "numeric_literal (it_amount t) = Some (of_int ca / 100)" and "0 < ca" and "ca < 10 ^ 12"
    and "d = (if it_type t = ''credit'' then ca else - ca)"
    and "pg_text (it_type t)" and "pg_text (it_description t)"
    and "length (it_amount t) \<le> 16000"
proof -
  from assms obtain t where t: "insertTransactionSchema b = Inr t"
    by (auto simp: signed_cents_def split: sum.splits)
  from assms t obtain q where q: "numeric_literal (it_amount t) = Some q"
    by (auto simp: signed_cents_def split: option.splits)
  define ca where "ca = \<lfloor>q * 100\<rfloor>"
  have c: "it_accountId t = acc" "0 < q" "q < 10 ^ 10" "of_int ca = q * 100"
    "d = (if it_type t = ''credit'' then ca else - ca)"
    "pg_text (it_type t)" "pg_text (it_description t)" "length (it_amount t) \<le> 16000"
    using assms t q by (auto simp: signed_cents_def ca_def split: if_splits)
  have "q = of_int ca / 100" using c(4) by simp
  moreover have "0 < ca"
  proof -
    have "0 < rat_of_int ca" using c(2,4) by simp
    then show ?thesis by simp
  qed
  moreover have "ca < 10 ^ 12"
  proof -
    have "rat_of_int ca < rat_of_int (10 ^ 12)" using c(3,4) by simp
    then show ?thesis by (simp only: of_int_less_iff)
  qed
  ultimately show thesis using that [of t ca] t q c(1,5,6,7,8) by simp
qed

lemma post_transactions_balance:
  assumes "getBankAccount acc s = Inr (Some a)" and "ba_userId a = user"
    and "ba_balance a = numeric_out cb" and "\<bar>cb\<bar> < 10 ^ 12"
    and "signed_cents acc b = Some d" and "\<bar>cb + d\<bar> < 10 ^ 12"
  shows "\<exists>s' row. post_transactions user b s = (s', Inr row)
           \<and> transactions s' = transactions s @ [row]
           \<and> getBankAccount acc s' = Inr (Some (a\<lparr>ba_balance := numeric_out (cb + d)\<rparr>))"
  using assms(5)
proof (cases rule: signed_cents_Some)
  case (1 t ca)
  have "\<exists>s' row. createTransaction t s = (s', Inr row)
           \<and> transactions s' = transactions s @ [row]
           \<and> tx_accountId row = it_accountId t \<and> tx_amount row = numeric_out ca
           \<and> tx_type row = it_type t
           \<and> splitExpenses s' = splitExpenses s \<and> splitParticipants s' = splitParticipants s
           \<and> getBankAccount (it_accountId t) s'
               = Inr (Some (a\<lparr>ba_balance :=
                    numeric_out (cb + (if it_type t = ''credit'' then ca else - ca))\<rparr>))"
    using assms(1,3,4,6) 1 by (intro createTransaction_balance) simp_all
  then show ?thesis
    using assms(1,2) 1 by (auto simp: post_transactions_def)
qed

lemma fits_column_head: "fits_column c ds \<Longrightarrow> \<bar>c\<bar> < 10 ^ 12"
  by (cases ds) simp_all

section \<open>Every decimal column holds text with two fractional digits\<close>

lemma fixed2_cents_text:
  assumes "0 \<le> c"
  shows "fixed2 (cents_text c)" and "fixed2 (CHR ''-'' # cents_text c)"
proof -
  define ds where "ds = digits_of_int (c div 100)"
  define d1 where "d1 = digit_char (c mod 100 div 10)"
  define d2 where "d2 = digit_char (c mod 10)"
  have t: "cents_text c = ds @ [CHR ''.'', d1, d2]"
    by (simp add: cents_text_def ds_def d1_def d2_def)
  have r: "rev (cents_text c) = d2 # d1 # CHR ''.'' # rev ds" by (simp add: t)
  have ds: "list_all is_digit ds" "ds \<noteq> []"
    using assms by (simp_all add: ds_def digits_of_int_digits digits_of_int_neq_Nil)
  have d: "is_digit d1" "is_digit d2" by (simp_all add: d1_def d2_def is_digit_digit_char)
  obtain h rest where h: "cents_text c = h # rest" "is_digit h"
    using cents_text_head [OF assms] by blast
  then have "h \<noteq> CHR ''-''" by (auto simp: is_digit_def)
  then have "fixed2 (cents_text c) \<longleftrightarrow>
      (case rev (cents_text c) of d2 # d1 # p # ds \<Rightarrow>
          is_digit d2 \<and> is_digit d1 \<and> p = CHR ''.'' \<and> ds \<noteq> [] \<and> list_all is_digit ds
       | _ \<Rightarrow> False)"
    using h(1) by (simp add: fixed2_def)
  then show "fixed2 (cents_text c)" using ds d by (simp add: r list_all_iff)
  show "fixed2 (CHR ''-'' # cents_text c)"
    using ds d by (simp add: fixed2_def r list_all_iff)
qed

lemma fixed2_numeric_out: "fixed2 (numeric_out c)"
  using fixed2_cents_text [of "\<bar>c\<bar>"] by (auto simp: numeric_out_def abs_if)

lemma numeric_12_2_column_text: "numeric_12_2 t = Some r \<Longrightarrow> column_text r"
  by (auto simp: numeric_12_2_def Let_def column_text_def fixed2_numeric_out
      split: if_splits option.splits)

lemma createBankAccount_money:
  "money_columns s \<Longrightarrow> money_columns (fst (createBankAccount user v s))"
  by (auto simp: createBankAccount_def money_columns_def Let_def numeric_12_2_column_text
      split: option.splits)

lemma insert_transaction_row_money:
  "money_columns s \<Longrightarrow> money_columns (fst (insert_transaction_row t s))"
  by (auto simp: insert_transaction_row_def money_columns_def Let_def numeric_12_2_column_text
      split: option.splits)

lemma updateBankAccountBalance_money:
  "money_columns s \<Longrightarrow> money_columns (fst (updateBankAccountBalance acc t s))"
  by (auto simp: updateBankAccountBalance_def money_columns_def list_all_iff
      numeric_12_2_column_text split: option.splits)

lemma createTransaction_money:
  assumes "money_columns s"
  shows "money_columns (fst (createTransaction t s))"
proof -
  obtain s1 r1 where i: "insert_transaction_row t s = (s1, r1)"
    by (cases "insert_transaction_row t s")
  have m1: "money_columns s1" using insert_transaction_row_money [OF assms, of t] i by simp
  show ?thesis
  proof (cases r1)
    case (Inl e)
    then show ?thesis using i m1 by (simp add: createTransaction_def)
  next
    case row: (Inr row)
    show ?thesis
    proof (cases "getBankAccount (it_accountId t) s1")
      case (Inl e)
      then show ?thesis using i row m1 by (simp add: createTransaction_def)
    next
      case found: (Inr x)
      show ?thesis
      proof (cases x)
        case None
        then show ?thesis using i row found m1 by (simp add: createTransaction_def)
      next
        case (Some a)
        obtain s2 r2 where u: "updateBankAccountBalance (it_accountId t)
            (toString (newBalance a t)) s1 = (s2, r2)"
          by (cases "updateBankAccountBalance (it_accountId t) (toString (newBalance a t)) s1")
        have "money_columns s2"
          using updateBankAccountBalance_money [OF m1, of "it_accountId t" "toString (newBalance a t)"] u
          by simp
        then show ?thesis
          using i row found Some u by (cases r2) (simp_all add: createTransaction_def)
      qed
    qed
  qed
qed

lemma createSplitExpense_money:
  "money_columns s \<Longrightarrow> money_columns (fst (createSplitExpense user v s))"
  by (auto simp: createSplitExpense_def money_columns_def Let_def numeric_12_2_column_text
      split: option.splits)

lemma createSplitParticipants_money:
  assumes "money_columns s"
  shows "money_columns (fst (createSplitParticipants eid ps s))"
proof (cases "createSplitParticipants eid ps s")
  case (Pair s' r)
  show ?thesis
  proof (cases r)
    case (Inl e)
    then show ?thesis using Pair assms createSplitParticipants_Inl [of eid ps s s' e] by simp
  next
    case (Inr rows)
    then have c: "createSplitParticipants eid ps s = (s', Inr rows)" using Pair by simp
    have "list_all2 (\<lambda>p r. column_text (sp_shareAmount r)) ps rows"
      by (rule list_all2_mono [OF createSplitParticipants_Inr(5) [OF c]])
         (auto intro: numeric_12_2_column_text)
    then have "list_all (\<lambda>r. column_text (sp_shareAmount r)) rows"
      by (induction rule: list_all2_induct) simp_all
    then show ?thesis
      using assms createSplitParticipants_Inr(1-4) [OF c] Pair
      by (simp add: money_columns_def)
  qed
qed

lemma updateSplitExpense_money:
  "money_columns s \<Longrightarrow> money_columns (fst (updateSplitExpense ident v s))"
  by (auto simp: updateSplitExpense_def money_columns_def list_all_iff
      numeric_12_2_column_text split: option.splits)

lemma fst_case_result:
  "fst (case x of (s2, Inl e) \<Rightarrow> (s2, Inl e) | (s2, Inr r) \<Rightarrow> (s2, Inr (g r))) = fst x"
  by (auto split: prod.splits sum.splits)

lemma post_split_expense_money:
  assumes "money_columns s"
  shows "money_columns (fst (post_split_expense user b s))"
proof (cases "insertSplitExpenseSchema b")
  case (Inl e)
  then show ?thesis using assms by (simp add: post_split_expense_def)
next
  case (Inr v)
  obtain s1 r1 where c: "createSplitExpense user v s = (s1, r1)"
    by (cases "createSplitExpense user v s")
  have m1: "money_columns s1" using createSplitExpense_money [OF assms, of user v] c by simp
  show ?thesis
  proof (cases r1)
    case (Inl e)
    then show ?thesis using Inr c m1 by (simp add: post_split_expense_def)
  next
    case row: (Inr row)
    have "money_columns (fst (createSplitParticipants eid ps s1))" for eid ps
      using m1 by (rule createSplitParticipants_money)
    then show ?thesis
      using Inr c row m1
      by (auto simp: post_split_expense_def Let_def fst_case_result
          split: option.splits json.splits)
  qed
qed

section \<open>The share of an equal split\<close>

text \<open>
  An amount of \<open>ca\<close> hundredths divided by \<open>n\<close> in doubles: the quotient, times 100, is
  closer to \<open>ca / n\<close> than \<open>1 / (2 n)\<close>.
\<close>

lemma share_quotient:
  assumes "0 < ca" and "ca < 10 ^ 12" and "0 < n" and "n < 2 ^ 32"
  shows "\<exists>x. num_div_nat (fl (of_int ca / 100)) n = Fin x \<and> 0 < x
            \<and> \<bar>x * 100 - of_int ca / of_nat n\<bar> < 1 / (2 * of_nat n)"
proof -
  define a :: rat where "a = of_int ca / 100"
  define N :: rat where "N = of_nat n"
  have N: "1 \<le> N" "N < 2 ^ 32"
    using assms(3,4) by (simp_all add: N_def)
  have ca1: "1 \<le> rat_of_int ca" using assms(1) by simp
  have ca2: "rat_of_int ca < 10 ^ 12"
  proof -
    have "rat_of_int ca < rat_of_int (10 ^ 12)" using assms(2) by (simp only: of_int_less_iff)
    then show ?thesis by simp
  qed
  have a: "1 / 100 \<le> a" "a < 10 ^ 10" using ca1 ca2 by (simp_all add: a_def)
  have a0: "0 < a" using a(1) by linarith
  have "2 powi (- 1022) \<le> \<bar>a\<bar>"
  proof -
    have "(2::rat) powi (- 1022) \<le> 2 powi (- 7)" by (intro power_int_increasing) simp_all
    also have "\<dots> \<le> 1 / 100" by simp
    also have "\<dots> \<le> a" by (rule a(1))
    finally show ?thesis by (simp only: abs_of_pos [OF a0])
  qed
  moreover have "\<bar>a\<bar> < 2 powi 1023"
  proof -
    have "a < 2 powi 34" using a(2) by simp
    also have "\<dots> \<le> 2 powi 1023" by (intro power_int_increasing) simp_all
    finally show ?thesis by (simp only: abs_of_pos [OF a0])
  qed
  ultimately obtain ra where ra: "fl a = Fin ra" "\<bar>ra - a\<bar> \<le> \<bar>a\<bar> / 2 ^ 53"
    using fl_relative by blast
  have ra1: "\<bar>ra - a\<bar> \<le> a / 2 ^ 53" using ra(2) a0 by simp
  have ralo: "a / 2 \<le> ra"
  proof -
    have "a / 2 ^ 53 \<le> a / 2" using a0 by (simp add: frac_le)
    then show ?thesis using ra1 by linarith
  qed
  have rahi: "ra \<le> 2 * a"
  proof -
    have "a / 2 ^ 53 \<le> a" using a0 by (simp add: divide_le_eq_1)
    then show ?thesis using ra1 by linarith
  qed
  define t where "t = ra / N"
  have N0: "0 < N" using N(1) by linarith
  have t0: "0 < t" using ralo a0 N0 by (simp add: t_def)
  have tlo: "2 powi (- 1022) \<le> \<bar>t\<bar>"
  proof -
    have "(2::rat) powi (- 1022) \<le> 2 powi (- 40)" by (intro power_int_increasing) simp_all
    also have "\<dots> = (1 / 2 ^ 8) / 2 ^ 32" by simp
    also have "\<dots> \<le> (a / 2) / 2 ^ 32" using a(1) by (intro divide_right_mono) simp_all
    also have "\<dots> \<le> ra / 2 ^ 32" using ralo by (intro divide_right_mono) simp_all
    also have "\<dots> \<le> ra / N" using N N0 ralo a0 by (intro divide_left_mono) simp_all
    finally show ?thesis by (simp only: abs_of_pos [OF t0] t_def)
  qed
  have thi: "\<bar>t\<bar> < 2 powi 1023"
  proof -
    have "t \<le> ra" using N(1) ralo a0 by (simp add: t_def divide_le_eq)
    also have "\<dots> \<le> 2 * a" by (rule rahi)
    also have "\<dots> < 2 powi 35" using a(2) by simp
    also have "\<dots> \<le> 2 powi 1023" by (intro power_int_increasing) simp_all
    finally show ?thesis by (simp only: abs_of_pos [OF t0])
  qed
  obtain x where x: "fl t = Fin x" "\<bar>x - t\<bar> \<le> \<bar>t\<bar> / 2 ^ 53"
    using fl_relative [OF tlo thi] by blast
  have x1: "\<bar>x - t\<bar> \<le> t / 2 ^ 53" using x(2) t0 by simp
  have tn: "t \<le> 2 * (a / N)" using rahi N0 by (simp add: t_def divide_right_mono)
  have "\<bar>t - a / N\<bar> = \<bar>ra - a\<bar> / N"
    using N0 by (simp add: t_def diff_divide_distrib [symmetric])
  also have "\<dots> \<le> (a / 2 ^ 53) / N" using ra1 N0 by (intro divide_right_mono) simp_all
  finally have t1: "\<bar>t - a / N\<bar> \<le> (a / N) / 2 ^ 53" by simp
  have "\<bar>x - a / N\<bar> \<le> \<bar>x - t\<bar> + \<bar>t - a / N\<bar>" by linarith
  also have "\<dots> \<le> t / 2 ^ 53 + (a / N) / 2 ^ 53" using x1 t1 by linarith
  also have "\<dots> \<le> 2 * (a / N) / 2 ^ 53 + (a / N) / 2 ^ 53"
    using tn by (simp add: divide_right_mono)
  also have "\<dots> = 3 * (a / N) / 2 ^ 53" by simp
  finally have xa: "\<bar>x - a / N\<bar> \<le> 3 * (a / N) / 2 ^ 53" .
  have "x * 100 - of_int ca / N = (x - a / N) * 100" by (simp add: a_def left_diff_distrib)
  then have "\<bar>x * 100 - of_int ca / N\<bar> = \<bar>x - a / N\<bar> * \<bar>100\<bar>" by (simp only: abs_mult)
  also have "\<dots> \<le> 3 * (a / N) / 2 ^ 53 * 100" using xa by simp
  also have "\<dots> = (3 * of_int ca / 2 ^ 53) / N" by (simp add: a_def)
  also have "\<dots> < (1 / 2) / N"
    using ca2 N0 by (intro divide_strict_right_mono) simp_all
  finally have close: "\<bar>x * 100 - of_int ca / N\<bar> < 1 / (2 * N)" by simp
  have "0 < x"
  proof -
    have "t / 2 ^ 53 < t" using t0 by (simp add: divide_less_eq_1)
    then show ?thesis using x1 by linarith
  qed
  moreover have "num_div_nat (fl (of_int ca / 100)) n = Fin x"
    using ra(1) x(1) assms(3) by (simp add: a_def t_def N_def)
  ultimately show ?thesis using close by (auto simp: N_def)
qed

lemma toFixed2_cents:
  "0 < x \<Longrightarrow> x < 10 ^ 21 \<Longrightarrow> toFixed2 (Fin x) = cents_text \<lfloor>x * 100 + 1 / 2\<rfloor>"
  by simp

lemma numeric_12_2_cents_text:
  assumes "0 \<le> c" and "c < 10 ^ 12"
  shows "numeric_12_2 (cents_text c) = Some (numeric_out c)"
proof -
  have "numeric_out c = cents_text c" using assms(1) by (simp add: numeric_out_def)
  then show ?thesis using numeric_12_2_numeric_out [of c] assms by simp
qed

lemma share_cents:
  assumes "0 < ca" and "ca < 10 ^ 12" and "0 < n" and "n < 2 ^ 32"
  shows "\<exists>c. 0 \<le> c \<and> c < 10 ^ 12
            \<and> toFixed2 (num_div_nat (fl (of_int ca / 100)) n) = cents_text c
            \<and> (\<not> half_cent_tie ca n
                 \<longrightarrow> c = round_half_away (of_int ca / 100 / of_nat n * 100))"
proof -
  obtain x where x: "num_div_nat (fl (of_int ca / 100)) n = Fin x" "0 < x"
    "\<bar>x * 100 - of_int ca / of_nat n\<bar> < 1 / (2 * of_nat n)"
    using share_quotient [OF assms] by blast
  define N :: rat where "N = of_nat n"
  define C :: rat where "C = of_int ca"
  have N: "1 \<le> N" using assms(3) by (simp add: N_def)
  have N0: "0 < N" using N by linarith
  have C: "1 \<le> C" "C < 10 ^ 12"
  proof -
    show "1 \<le> C" using assms(1) by (simp add: C_def)
    have "rat_of_int ca < rat_of_int (10 ^ 12)" using assms(2) by (simp only: of_int_less_iff)
    then show "C < 10 ^ 12" by (simp add: C_def)
  qed
  have close: "C / N - 1 / (2 * N) < x * 100" "x * 100 < C / N + 1 / (2 * N)"
    using x(3) by (simp_all add: abs_less_iff N_def C_def)
  have h: "1 / (2 * N) \<le> 1 / 2" using N by (simp add: divide_le_eq)
  have cn: "C / N \<le> C" using N C(1) by (simp add: divide_le_eq)
  define c where "c = \<lfloor>x * 100 + 1 / 2\<rfloor>"
  have c0: "0 \<le> c" using x(2) by (simp add: c_def)
  have "x * 100 + 1 / 2 < of_int (ca + 1)" using close(2) h cn by (simp add: C_def)
  then have "c < ca + 1" unfolding c_def by (simp only: floor_less_iff)
  then have c12: "c < 10 ^ 12" using assms(2) by simp
  have "x * 100 < 10 ^ 12 + 1" using close(2) h cn C(2) by linarith
  then have "x < 10 ^ 21" using x(2) by simp
  then have tf: "toFixed2 (Fin x) = cents_text c" using x(2) by (simp add: c_def)
  have spec: "c = round_half_away (of_int ca / 100 / of_nat n * 100)" if nt: "\<not> half_cent_tie ca n"
  proof -
    define M where "M = 2 * ca + int n"
    define D where "D = 2 * int n"
    define j where "j = M div D"
    define R where "R = M mod D"
    have D0: "0 < D" using assms(3) by (simp add: D_def)
    have M: "M = D * j + R" by (simp add: j_def R_def)
    have R: "0 \<le> R" "R < D" using D0 by (simp_all add: R_def)
    have "R \<noteq> 0"
    proof
      assume "R = 0"
      then have "2 * ca = int n + D * (j - 1)" using M by (simp add: M_def D_def algebra_simps)
      then have "(2 * ca) mod D = int n mod D" by (simp only: mod_mult_self2)
      also have "\<dots> = int n" using assms(3) by (simp add: D_def)
      finally show False using nt by (simp add: half_cent_tie_def D_def)
    qed
    then have R1: "1 \<le> R" "R \<le> D - 1" using R by simp_all
    have MD: "C / N + 1 / 2 = of_int M / of_int D"
      using N0 by (simp add: M_def D_def C_def N_def field_simps)
    have DN: "rat_of_int D = 2 * N" by (simp add: D_def N_def)
    have "of_int M / rat_of_int D = of_int j + of_int R / of_int D"
      using D0 by (simp add: M field_simps)
    then have cn': "C / N = of_int j - 1 / 2 + of_int R / (2 * N)"
      using MD DN by simp
    have r1: "1 / (2 * N) \<le> of_int R / (2 * N)"
      using R1(1) N0 by (intro divide_right_mono) simp_all
    have r2: "of_int R / (2 * N) \<le> (2 * N - 1) / (2 * N)"
    proof -
      have "rat_of_int R \<le> of_int (D - 1)" using R1(2) by (simp only: of_int_le_iff)
      then have "rat_of_int R \<le> 2 * N - 1" using DN by simp
      then show ?thesis using N0 by (intro divide_right_mono) simp_all
    qed
    have r3: "(2 * N - 1) / (2 * N) = 1 - 1 / (2 * N)" using N0 by (simp add: field_simps)
    have "of_int j < x * 100 + 1 / 2" using close(1) cn' r1 by linarith
    moreover have "x * 100 + 1 / 2 < of_int j + 1" using close(2) cn' r2 r3 by linarith
    ultimately have cj: "c = j" unfolding c_def by (intro floor_unique) simp_all
    have "\<lfloor>C / N + 1 / 2\<rfloor> = j"
      unfolding MD j_def by (rule floor_divide_of_int_eq)
    moreover have "0 \<le> C / N" using C(1) N0 by simp
    ultimately have "round_half_away (C / N) = j"
      by (simp add: round_half_away_def)
    moreover have "of_int ca / 100 / of_nat n * 100 = C / N" by (simp add: C_def N_def)
    ultimately show ?thesis using cj by simp
  qed
  show ?thesis using c0 c12 tf spec x(1) by auto
qed

section \<open>Names from the participants text\<close>

lemma split_str_neq_Nil: "split_str sep p \<noteq> []"
  by (induction p) (auto split: list.splits)

lemma trim_blank: "list_all is_space x \<Longrightarrow> trim x = []"
proof -
  assume "list_all is_space x"
  then have d: "dropWhile is_space x = []" by (simp add: list_all_iff)
  show ?thesis unfolding trim_def d by simp
qed

lemma split_str_blank:
  assumes "list_all (\<lambda>c. is_space c \<or> c = sep) p"
  shows "list_all (list_all is_space) (split_str sep p)
       \<and> length (split_str sep p) = Suc (count_list p sep)"
  using assms
proof (induction p)
  case Nil
  then show ?case by simp
next
  case (Cons c p)
  then have ih: "list_all (list_all is_space) (split_str sep p)"
    "length (split_str sep p) = Suc (count_list p sep)" by simp_all
  show ?case
  proof (cases "c = sep")
    case True
    then show ?thesis using ih by simp
  next
    case False
    then have c: "is_space c" using Cons.prems by simp
    obtain x xs where x: "split_str sep p = x # xs"
      using split_str_neq_Nil [of sep p] by (cases "split_str sep p") auto
    then show ?thesis using ih False c by simp
  qed
qed

lemma blank_names:
  assumes "list_all (\<lambda>c. is_space c \<or> c = sep) p"
  shows "map trim (split_str sep p) = replicate (Suc (count_list p sep)) []"
proof -
  have "\<forall>x \<in> set (split_str sep p). trim x = []"
    using split_str_blank [OF assms] by (auto simp: list_all_iff intro: trim_blank)
  then have "map trim (split_str sep p) = replicate (length (split_str sep p)) []"
    by (simp add: map_replicate_const [symmetric] cong: map_cong)
  then show ?thesis using split_str_blank [OF assms] by simp
qed

lemma count_list_le_length: "count_list p c \<le> length p"
  by (induction p) auto

lemma split_str_set: "x \<in> set (split_str sep p) \<Longrightarrow> set x \<subseteq> set p"
proof (induction p arbitrary: x)
  case Nil
  then show ?case by simp
next
  case (Cons c p)
  show ?case
  proof (cases "c = sep")
    case True
    then show ?thesis using Cons by auto
  next
    case False
    obtain y ys where y: "split_str sep p = y # ys"
      using split_str_neq_Nil [of sep p] by (cases "split_str sep p") auto
    then have "x = c # y \<or> x \<in> set ys" using Cons.prems False by simp
    then show ?thesis
    proof
      assume "x = c # y"
      moreover have "set y \<subseteq> set p" using Cons.IH [of y] y by simp
      ultimately show ?thesis by auto
    next
      assume "x \<in> set ys"
      then have "set x \<subseteq> set p" using Cons.IH [of x] y by simp
      then show ?thesis by auto
    qed
  qed
qed

lemma trim_set: "set (trim x) \<subseteq> set x"
proof -
  have "set (dropWhile is_space (rev (dropWhile is_space x))) \<subseteq> set (rev (dropWhile is_space x))"
    by (auto dest: set_dropWhileD)
  moreover have "set (dropWhile is_space x) \<subseteq> set x" by (auto dest: set_dropWhileD)
  ultimately show ?thesis by (auto simp: trim_def)
qed

lemma names_pg_text:
  assumes "pg_text p" and "name \<in> set (map trim (split_str sep p))"
  shows "pg_text name"
proof -
  from assms(2) obtain x where x: "x \<in> set (split_str sep p)" "name = trim x" by auto
  have "set name \<subseteq> set p" using trim_set [of x] split_str_set [OF x(1)] x(2) by auto
  then show ?thesis using assms(1) by (auto simp: pg_text_def)
qed

lemma pg_text_uuid: "pg_text (uuid n)"
proof -
  have "list_all is_digit (digits_of_int (int n))" by (rule digits_of_int_digits) simp
  moreover have "\<not> is_digit (CHR 0x00)" by (simp add: is_digit_def)
  ultimately have "CHR 0x00 \<notin> set (digits_of_int (int n))" by (auto simp: list_all_iff)
  then show ?thesis by (simp add: pg_text_def uuid_def)
qed

section \<open>When the split route succeeds\<close>

lemma those_map_exists:
  "(\<And>x. x \<in> set xs \<Longrightarrow> \<exists>y. f x = Some y) \<Longrightarrow> \<exists>ys. those (map f xs) = Some ys"
proof (induction xs)
  case Nil
  then show ?case by simp
next
  case (Cons x xs)
  then obtain y ys where "f x = Some y" "those (map f xs) = Some ys"
    by (metis list.set_intros(1) list.set_intros(2))
  then show ?case by simp
qed

lemma schema_amount:
  "insertSplitExpenseSchema b = Inr v \<Longrightarrow> map_of b ''amount'' = Some (JString (ise_amount v))"
  by (auto simp: insertSplitExpenseSchema_def split: option.splits elim: z_string.elims)

lemma schema_payerName:
  "insertSplitExpenseSchema b = Inr v
     \<Longrightarrow> map_of b ''payerName'' = Some (JString (ise_payerName v))"
  by (auto simp: insertSplitExpenseSchema_def split: option.splits elim: z_string.elims)

lemma post_split_expense_succeeds:
  assumes "insertSplitExpenseSchema b = Inr v"
    and "numeric_12_2 (ise_amount v) = Some amt"
    and "map_of b ''participants'' = Some (JString p)"
    and "numeric_12_2 (toFixed2 (num_div_nat (parseFloat (ise_amount v))
            (length (map trim (split_str CHR '','' p))))) = Some sh"
    and "pg_text (ise_payerName v)" and "pg_text (ise_description v)" and "pg_text p"
    and "length (split_str CHR '','' p) \<le> 21845" and "pg_text user"
  shows "\<exists>s' r. post_split_expense user b s = (s', Inr r)"
proof -
  define row where "row = \<lparr>se_id = uuid (next_uuid s), se_userId = user,
      se_payerName = ise_payerName v, se_amount = amt, se_description = ise_description v,
      se_date = clock s, se_createdAt = clock s\<rparr>"
  define s1 where "s1 = s\<lparr>splitExpenses := splitExpenses s @ [row], next_uuid := Suc (next_uuid s)\<rparr>"
  define names where "names = map trim (split_str CHR '','' p)"
  define share where "share = toFixed2 (num_div_nat (parseFloat (ise_amount v)) (length names))"
  define ps where "ps = map (\<lambda>name. \<lparr>isp_name = name, isp_shareAmount = share\<rparr>) names"
  have c: "createSplitExpense user v s = (s1, Inr row)"
    using assms(2,5,6,9) by (simp add: createSplitExpense_def row_def s1_def Let_def)
  have ne: "ps \<noteq> []" using split_str_neq_Nil [of "CHR '',''" p] by (simp add: ps_def names_def)
  have fk: "find (\<lambda>e. se_id e = se_id row) (splitExpenses s1) \<noteq> None"
    by (auto simp: s1_def find_None_iff)
  have few: "\<not> 65535 < 3 * int (length ps)" using assms(8) by (simp add: ps_def names_def)
  have idr: "pg_text (se_id row)" by (simp add: row_def pg_text_uuid)
  have "\<exists>y. (case x of (n, q) \<Rightarrow> participant_row (se_id row) n q) = Some y"
    if "x \<in> set (zip [next_uuid s1 ..< next_uuid s1 + length ps] ps)" for x
  proof -
    obtain n q where x: "x = (n, q)" by (cases x)
    then have "q \<in> set ps" using that by (meson set_zip_rightD)
    then have "isp_shareAmount q = share" and "isp_name q \<in> set names" by (auto simp: ps_def)
    moreover have "pg_text (isp_name q)"
      using names_pg_text [OF assms(7)] \<open>isp_name q \<in> set names\<close> by (simp add: names_def)
    ultimately show ?thesis
      using assms(4) x by (simp add: participant_row_def share_def names_def)
  qed
  then obtain rows where
    "those (map (\<lambda>(n, q). participant_row (se_id row) n q)
        (zip [next_uuid s1 ..< next_uuid s1 + length ps] ps)) = Some rows"
    using those_map_exists
      [of "zip [next_uuid s1 ..< next_uuid s1 + length ps] ps"
          "\<lambda>(n, q). participant_row (se_id row) n q"]
    by blast
  then have "\<exists>s2. createSplitParticipants (se_id row) ps s1 = (s2, Inr rows)"
    using ne fk few idr by (simp add: createSplitParticipants_def)
  then show ?thesis
    using assms(1,3) c
    by (auto simp: post_split_expense_def Let_def ps_def share_def names_def)
qed

section \<open>What an update of an expense changes\<close>

lemma z_string_optional_None: "z_string_optional x = Some None \<longleftrightarrow> x = None"
  by (cases x rule: z_string_optional.cases) auto

lemma z_string_optional_Some: "z_string_optional x = Some (Some v) \<longleftrightarrow> x = Some (JString v)"
  by (cases x rule: z_string_optional.cases) auto

lemma partial_schema_Inr:
  assumes "insertSplitExpenseSchema_partial b = Inr v"
  shows "(pse_payerName v = None \<longleftrightarrow> map_of b ''payerName'' = None)"
    and "(pse_payerName v = Some p \<longleftrightarrow> map_of b ''payerName'' = Some (JString p))"
    and "(pse_amount v = None \<longleftrightarrow> map_of b ''amount'' = None)"
    and "(pse_amount v = Some m \<longleftrightarrow> map_of b ''amount'' = Some (JString m))"
    and "(pse_description v = None \<longleftrightarrow> map_of b ''description'' = None)"
    and "(pse_description v = Some d \<longleftrightarrow> map_of b ''description'' = Some (JString d))"
  using assms
  by (auto simp: insertSplitExpenseSchema_partial_def z_string_optional_None
      z_string_optional_Some split: option.splits)

lemma updateSplitExpense_frame:
  assumes "updateSplitExpense ident v s = (s', r)"
  shows "splitParticipants s' = splitParticipants s"
    and "bankAccounts s' = bankAccounts s"
    and "transactions s' = transactions s"
    and "list_all2 (\<lambda>e e'.
            se_id e' = se_id e \<and> se_userId e' = se_userId e \<and> se_date e' = se_date e
          \<and> se_createdAt e' = se_createdAt e
          \<and> (se_id e \<noteq> ident \<or> pse_payerName v = None \<longrightarrow> se_payerName e' = se_payerName e)
          \<and> (se_id e \<noteq> ident \<or> pse_amount v = None \<longrightarrow> se_amount e' = se_amount e)
          \<and> (se_id e \<noteq> ident \<or> pse_description v = None \<longrightarrow> se_description e' = se_description e)
          \<and> (r = Inr () \<and> se_id e = ident \<longrightarrow>
                (\<forall>p. pse_payerName v = Some p \<longrightarrow> se_payerName e' = p)
              \<and> (\<forall>m. pse_amount v = Some m \<longrightarrow> numeric_12_2 m = Some (se_amount e'))
              \<and> (\<forall>d. pse_description v = Some d \<longrightarrow> se_description e' = d)))
          (splitExpenses s) (splitExpenses s')"
  using assms
  by (auto simp: updateSplitExpense_def list_all2_map2 list_all2_same
      split: if_splits option.splits)

section \<open>What the routes hand to the decimal columns\<close>

lemma post_accounts_Inr:
  assumes "post_accounts user b s = (s', Inr a)"
  shows "\<exists>v. insertBankAccountSchema b = Inr v
           \<and> numeric_12_2 (case iba_balance v of None \<Rightarrow> ''0'' | Some t \<Rightarrow> t) = Some (ba_balance a)
           \<and> bankAccounts s' = bankAccounts s @ [a]"
proof -
  from assms obtain v where v: "insertBankAccountSchema b = Inr v"
    by (auto simp: post_accounts_def split: sum.splits)
  then have c: "createBankAccount user v s = (s', Inr a)"
    using assms by (simp add: post_accounts_def)
  then obtain bal where bal:
    "numeric_12_2 (case iba_balance v of None \<Rightarrow> ''0'' | Some t \<Rightarrow> t) = Some bal"
    by (auto simp: createBankAccount_def split: option.splits)
  have "ba_balance a = bal \<and> bankAccounts s' = bankAccounts s @ [a]"
    using c bal by (auto simp: createBankAccount_def Let_def split: if_splits)
  then show ?thesis using v bal by simp
qed

lemma createTransaction_Inr:
  assumes "createTransaction t s = (s', Inr row)"
    and "getBankAccount (it_accountId t) s = Inr (Some a)"
  shows "\<exists>bal. numeric_12_2 (it_amount t) = Some (tx_amount row)
           \<and> transactions s' = transactions s @ [row]
           \<and> numeric_12_2 (toString (newBalance a t)) = Some bal
           \<and> bankAccounts s' =
               map (\<lambda>x. if ba_id x = it_accountId t then x\<lparr>ba_balance := bal\<rparr> else x)
                 (bankAccounts s)"
proof -
  have idt: "pg_text (it_accountId t)"
    and fnd: "find (\<lambda>x. ba_id x = it_accountId t) (bankAccounts s) = Some a"
    using getBankAccount_Inr [OF assms(2)] by simp_all
  obtain s1 r1 where i: "insert_transaction_row t s = (s1, r1)"
    by (cases "insert_transaction_row t s")
  have r1: "r1 \<noteq> Inl e" for e
    using assms(1) i by (auto simp: createTransaction_def)
  then obtain row1 where row1: "r1 = Inr row1" by (cases r1) auto
  obtain amt where amt: "numeric_12_2 (it_amount t) = Some amt"
    using i row1 fnd by (auto simp: insert_transaction_row_def split: option.splits)
  have s1: "s1 = s\<lparr>transactions := transactions s @ [row1], next_uuid := Suc (next_uuid s)\<rparr>"
    and t1: "tx_amount row1 = amt"
    using i row1 fnd amt by (auto simp: insert_transaction_row_def Let_def split: if_splits)
  have g: "getBankAccount (it_accountId t) s1 = Inr (Some a)"
    using fnd idt by (simp add: getBankAccount_def s1)
  obtain s2 r2 where u: "updateBankAccountBalance (it_accountId t) (toString (newBalance a t)) s1
      = (s2, r2)"
    by (cases "updateBankAccountBalance (it_accountId t) (toString (newBalance a t)) s1")
  have c: "createTransaction t s = (case r2 of Inl e \<Rightarrow> (s2, Inl e) | Inr _ \<Rightarrow> (s2, Inr row1))"
    by (simp add: createTransaction_def i row1 g u)
  then have r2: "r2 = Inr ()" and s2: "s' = s2" and row: "row = row1"
    using assms(1) by (cases r2; simp)+
  obtain bal where bal: "numeric_12_2 (toString (newBalance a t)) = Some bal"
    using u r2 by (auto simp: updateBankAccountBalance_def split: option.splits)
  have "bankAccounts s2 =
      map (\<lambda>x. if ba_id x = it_accountId t then x\<lparr>ba_balance := bal\<rparr> else x) (bankAccounts s1)"
    and "transactions s2 = transactions s1"
    using u r2 bal by (auto simp: updateBankAccountBalance_def split: if_splits)
  then show ?thesis using amt t1 bal s2 row by (simp add: s1)
qed

lemma post_transactions_Inr:
  assumes "post_transactions user b s = (s', Inr row)"
  shows "\<exists>t a bal. insertTransactionSchema b = Inr t
           \<and> getBankAccount (it_accountId t) s = Inr (Some a)
           \<and> numeric_12_2 (it_amount t) = Some (tx_amount row)
           \<and> transactions s' = transactions s @ [row]
           \<and> numeric_12_2 (toString (newBalance a t)) = Some bal
           \<and> bankAccounts s' =
               map (\<lambda>x. if ba_id x = it_accountId t then x\<lparr>ba_balance := bal\<rparr> else x)
                 (bankAccounts s)"
proof -
  from assms obtain t where t: "insertTransactionSchema b = Inr t"
    by (auto simp: post_transactions_def split: sum.splits)
  from assms t obtain a where a: "getBankAccount (it_accountId t) s = Inr (Some a)"
    by (auto simp: post_transactions_def split: sum.splits option.splits)
  have "createTransaction t s = (s', Inr row)"
    using assms t a by (auto simp: post_transactions_def split: if_splits)
  then show ?thesis using createTransaction_Inr [OF _ a] t a by blast
qed

lemma put_split_history_amount:
  assumes "put_split_history user ident b s = (s', Inr ())"
    and "map_of b ''amount'' = Some (JString m)"
    and "e \<in> set (splitExpenses s')" and "se_id e = ident"
  shows "numeric_12_2 m = Some (se_amount e)"
proof -
  from assms(1) obtain v where v: "insertSplitExpenseSchema_partial b = Inr v"
    by (auto simp: put_split_history_def split: sum.splits)
  then have u: "updateSplitExpense ident v s = (s', Inr ())"
    using assms(1) by (simp add: put_split_history_def)
  have m: "pse_amount v = Some m" using partial_schema_Inr(4) [OF v] assms(2) by simp
  obtain i where i: "i < length (splitExpenses s')" "splitExpenses s' ! i = e"
    using assms(3) by (auto simp: in_set_conv_nth)
  define e0 where "e0 = splitExpenses s ! i"
  have "se_id e = se_id e0
      \<and> (Inr () = (Inr () :: error + unit) \<and> se_id e0 = ident \<longrightarrow>
            (\<forall>m. pse_amount v = Some m \<longrightarrow> numeric_12_2 m = Some (se_amount e)))"
    using list_all2_nthD2 [OF updateSplitExpense_frame(4) [OF u] i(1)] i(2)
    by (simp add: e0_def)
  then show ?thesis using assms(4) m by simp
qed

lemma numeric_12_2_fixed:
  assumes "numeric_12_2 t = Some r"
  shows "(r = ''NaN'' \<or> fixed2 r) \<and> numeric_12_2 r = Some r"
proof -
  have nan: "numeric_12_2 ''NaN'' = Some ''NaN''" by code_simp
  have "r = ''NaN'' \<or> (\<exists>c. \<bar>c\<bar> < 10 ^ 12 \<and> r = numeric_out c)"
    using assms by (auto simp: numeric_12_2_def Let_def split: if_splits option.splits)
  then show ?thesis
    using nan numeric_12_2_numeric_out fixed2_numeric_out by auto
qed

section \<open>Evaluations on the example data\<close>

lemma dinner_split:
  "post_split_expense ''u1'' (split_body ''A'' ''100.00'' ''A, B,C'') empty_db
     = (dinner_db, Inr dinner_response)"
  by code_simp

lemma lunch_split:
  "post_split_expense ''u2'' lunch_body busy_db =
     (busy_db\<lparr>splitExpenses := [dinner_expense, second_dinner\<lparr>se_description := ''lunch''\<rparr>],
        splitParticipants :=
        [\<lparr>sp_id = ''id-1'', sp_expenseId = ''id-0'', sp_name = ''Z'', sp_shareAmount = ''100.00''\<rparr>,
         \<lparr>sp_id = ''id-8'', sp_expenseId = ''id-7'', sp_name = ''A'', sp_shareAmount = ''33.33''\<rparr>,
         \<lparr>sp_id = ''id-9'', sp_expenseId = ''id-7'', sp_name = ''B'', sp_shareAmount = ''33.33''\<rparr>,
         \<lparr>sp_id = ''id-10'', sp_expenseId = ''id-7'', sp_name = ''C'', sp_shareAmount = ''33.33''\<rparr>],
        next_uuid := 11\<rparr>,
      Inr (dinner_response\<lparr>sr_splitExpense := second_dinner\<lparr>se_description := ''lunch''\<rparr>\<rparr>))"
  by code_simp


lemma open_account:
  "post_accounts ''u1'' [(''name'', JString ''main'')] empty_db
     = (account_db, Inr (main_account ''0.00''))"
  by code_simp

lemma first_credit:
  "post_transactions ''u1'' (tx_body ''id-0'' ''10.00'' ''credit'') account_db
     = (ledger_db, Inr (salary_row ''10.00''))"
  by code_simp

lemma first_credit_deleted:
  "delete_transactions ''u1'' ''id-1'' ledger_db
     = (\<lparr>bankAccounts = [main_account ''10.00''], transactions = [],
         splitExpenses = [], splitParticipants = [], next_uuid = 2, clock = 0\<rparr>, Inr ())"
  by code_simp

section \<open>The claims\<close>

text \<open>
  C3 (the stored balance always equals the initial balance plus the net of the transactions
  that are not deleted, in particular right after \<open>deleteTransaction\<close>): the code does not
  keep this. \<open>createTransaction\<close> moves the balance, \<open>deleteTransaction\<close> only removes the
  row. An account opened at 0.00 and credited 10.00 keeps the balance 10.00 after its only
  transaction is deleted, where the net of the remaining transactions is 0.00.
\<close>

theorem deleteTransaction_keeps_balance:
  "post_accounts ''u1'' [(''name'', JString ''main'')] empty_db
     = (account_db, Inr (main_account ''0.00''))
   \<and> post_transactions ''u1'' (tx_body ''id-0'' ''10.00'' ''credit'') account_db
     = (ledger_db, Inr (salary_row ''10.00''))
   \<and> delete_transactions ''u1'' ''id-1'' ledger_db
     = (\<lparr>bankAccounts = [main_account ''10.00''], transactions = [],
         splitExpenses = [], splitParticipants = [], next_uuid = 2, clock = 0\<rparr>, Inr ())"
  by (simp only: open_account first_credit first_credit_deleted simp_thms)



text \<open>
  C10 (the split computation is deterministic and independent of the stored state): two
  successful calls whose request bodies agree on amount, payer name and participants, by
  any users on any databases and whatever else the bodies hold, return the same
  participants and the same calculations, and write share rows with the same multiset of
  names and share amounts.
\<close>

theorem split_is_deterministic:
  assumes "post_split_expense user1 b1 s1 = (t1, Inr r1)"
    and "post_split_expense user2 b2 s2 = (t2, Inr r2)"
    and "map_of b1 ''amount'' = map_of b2 ''amount''"
    and "map_of b1 ''payerName'' = map_of b2 ''payerName''"
    and "map_of b1 ''participants'' = map_of b2 ''participants''"
  shows "sr_participants r1 = sr_participants r2
       \<and> sr_calculations r1 = sr_calculations r2
       \<and> mset (map (\<lambda>p. (sp_name p, sp_shareAmount p))
                 (drop (length (splitParticipants s1)) (splitParticipants t1)))
         = mset (map (\<lambda>p. (sp_name p, sp_shareAmount p))
                 (drop (length (splitParticipants s2)) (splitParticipants t2)))"
  using assms(1)
proof (cases rule: post_split_expense_Inr)
  case a: (written v p rows)
  from assms(2) show ?thesis
  proof (cases rule: post_split_expense_Inr)
    case b: (written v' p' rows')
    have p: "p' = p" using a(2) b(2) assms(5) by simp
    have m: "ise_amount v' = ise_amount v"
      using schema_amount [OF a(1)] schema_amount [OF b(1)] assms(3) by simp
    have n: "ise_payerName v' = ise_payerName v"
      using schema_payerName [OF a(1)] schema_payerName [OF b(1)] assms(4) by simp
    have parts: "sr_participants r1 = sr_participants r2" using a(6) b(6) m p by simp
    have calc: "sr_calculations r1 = sr_calculations r2" using a(8) b(8) m n p by simp
    have 1: "list_all2 (\<lambda>p r'. sp_name r' = isp_name p \<and>
                numeric_12_2 (isp_shareAmount p) = Some (sp_shareAmount r')) (sr_participants r1) rows"
      by (rule list_all2_mono [OF a(7)]) simp
    have 2: "list_all2 (\<lambda>p r'. sp_name r' = isp_name p \<and>
                numeric_12_2 (isp_shareAmount p) = Some (sp_shareAmount r')) (sr_participants r1) rows'"
      unfolding parts by (rule list_all2_mono [OF b(7)]) simp
    have "map (\<lambda>p. (sp_name p, sp_shareAmount p)) rows = map (\<lambda>p. (sp_name p, sp_shareAmount p)) rows'"
      by (rule list_all2_same_image [OF 1 2]) auto
    then show ?thesis using parts calc a(4) b(4) by simp
  qed
qed

lemma same_three_fields:
  "map_of (split_body ''A'' ''100.00'' ''A, B,C'') ''amount'' = map_of lunch_body ''amount''"
  "map_of (split_body ''A'' ''100.00'' ''A, B,C'') ''payerName'' = map_of lunch_body ''payerName''"
  "map_of (split_body ''A'' ''100.00'' ''A, B,C'') ''participants''
     = map_of lunch_body ''participants''"
  "map_of (split_body ''A'' ''100.00'' ''A, B,C'') ''description'' = Some (JString ''dinner'')"
  "map_of lunch_body ''description'' = Some (JString ''lunch'')"
  by (simp_all add: split_body_def lunch_body_def)

theorem split_is_deterministic_witness:
  "post_split_expense ''u1'' (split_body ''A'' ''100.00'' ''A, B,C'') empty_db
     = (dinner_db, Inr dinner_response)
   \<and> map_of (split_body ''A'' ''100.00'' ''A, B,C'') ''description'' = Some (JString ''dinner'')
   \<and> map_of lunch_body ''description'' = Some (JString ''lunch'')
   \<and> snd (post_split_expense ''u2'' lunch_body busy_db)
     = Inr (dinner_response\<lparr>sr_splitExpense := second_dinner\<lparr>se_description := ''lunch''\<rparr>\<rparr>)
   \<and> mset (map (\<lambda>p. (sp_name p, sp_shareAmount p))
         (drop (length (splitParticipants busy_db))
            (splitParticipants (fst (post_split_expense ''u2'' lunch_body busy_db)))))
     = {#(''A'', ''33.33''), (''B'', ''33.33''), (''C'', ''33.33'')#}"
  using split_is_deterministic [OF dinner_split lunch_split same_three_fields(1,2,3)]
    dinner_split lunch_split same_three_fields(4,5)
  by (simp add: dinner_db_def empty_db_def busy_db_def dinner_shares_def)

lemma four_postings_cents:
  "those (map (signed_cents ''id-0'') four_postings) = Some [1000, - 250, 10, 20]"
  by code_simp

lemma account_db_lookup: "getBankAccount ''id-0'' account_db = Inr (Some (main_account ''0.00''))"
  by code_simp

lemma numeric_out_examples: "numeric_out 0 = ''0.00''" "numeric_out 780 = ''7.80''"
  by code_simp+

text \<open>
  C2 (after \<open>addTransaction\<close> the balance is the prior balance plus the amount of a
  credit, minus that of a debit; after a sequence of calls it is the initial balance plus
  the credits minus the debits, exactly): this holds for requests of the owner that the
  server accepts as they are (type and description without NUL, the amount a positive
  decimal literal of at most 16000 characters with at most two fractional digits) as long
  as every balance on the way fits the column, that is, stays below \<open>10^10\<close> in
  magnitude. Every such call stores its transaction. The balance is computed in doubles
  and printed by \<open>toString\<close>; the column rounds the printed text to the exact sum.
\<close>

theorem balance_after_transactions:
  assumes "getBankAccount acc s = Inr (Some a)" and "ba_userId a = user"
    and "ba_balance a = numeric_out cb"
    and "those (map (signed_cents acc) bs) = Some ds" and "fits_column cb ds"
  shows "getBankAccount acc (post_all_transactions user bs s)
           = Inr (Some (a\<lparr>ba_balance := numeric_out (cb + sum_list ds)\<rparr>))
       \<and> length (transactions (post_all_transactions user bs s))
           = length (transactions s) + length bs"
  using assms
proof (induction bs arbitrary: s a cb ds)
  case Nil
  then show ?case by simp
next
  case (Cons b bs)
  from Cons.prems(4) obtain d ds' where d: "signed_cents acc b = Some d"
    and ds': "those (map (signed_cents acc) bs) = Some ds'" and ds: "ds = d # ds'"
    by (auto split: option.splits)
  have cb: "\<bar>cb\<bar> < 10 ^ 12" using Cons.prems(5) by (rule fits_column_head)
  have fit': "fits_column (cb + d) ds'" using Cons.prems(5) ds by simp
  then have cd: "\<bar>cb + d\<bar> < 10 ^ 12" by (rule fits_column_head)
  obtain s' row where step: "post_transactions user b s = (s', Inr row)"
    "transactions s' = transactions s @ [row]"
    "getBankAccount acc s' = Inr (Some (a\<lparr>ba_balance := numeric_out (cb + d)\<rparr>))"
    using post_transactions_balance [OF Cons.prems(1,2,3) cb d cd] by blast
  have "getBankAccount acc (post_all_transactions user bs s')
           = Inr (Some (a\<lparr>ba_balance := numeric_out (cb + d)\<rparr>\<lparr>ba_balance := numeric_out (cb + d + sum_list ds')\<rparr>))
       \<and> length (transactions (post_all_transactions user bs s'))
           = length (transactions s') + length bs"
    using Cons.prems(2) by (intro Cons.IH [OF step(3) _ _ ds' fit']) simp_all
  then show ?case using step(1,2) ds by (simp add: add.assoc)
qed

theorem balance_after_transactions_witness:
  "those (map (signed_cents ''id-0'') four_postings) = Some [1000, - 250, 10, 20]
   \<and> fits_column 0 [1000, - 250, 10, 20]
   \<and> getBankAccount ''id-0'' account_db = Inr (Some (main_account ''0.00''))
   \<and> getBankAccount ''id-0'' (post_all_transactions ''u1'' four_postings account_db)
       = Inr (Some (main_account ''7.80''))
   \<and> length (transactions (post_all_transactions ''u1'' four_postings account_db)) = 4"
  using balance_after_transactions [OF account_db_lookup _ _ four_postings_cents, of "''u1''" 0]
    four_postings_cents account_db_lookup
  by (simp add: main_account_def numeric_out_examples account_db_def four_postings_def)

text \<open>
  The claim as stated fails where the sum does not fit the column: a credit of 0.01 to a
  balance of 9999999999.99 is stored as a transaction, its balance update is refused, and
  the balance stays as it was.
\<close>

theorem balance_beyond_column:
  "post_transactions ''u1'' (tx_body ''id-0'' ''0.01'' ''credit'') rich_db
     = (\<lparr>bankAccounts = [main_account ''9999999999.99''], transactions = [salary_row ''0.01''],
         splitExpenses = [], splitParticipants = [], next_uuid = 2, clock = 0\<rparr>, Inl DbError)"
  by code_simp

text \<open>
  C1 (one share row per occurrence of a name, every share the identical
  \<open>round(amount / count, 2 decimal places)\<close>): a request that passes the schema, with
  texts without NUL (the identifier of the user among them), at most 21845 names, and an
  amount that is a positive decimal
  literal below \<open>10^10\<close> with at most two fractional digits (written in at most 16000
  characters), succeeds; it writes the expense and one share row per name, in the order
  of the names and with repetitions kept, all for the new expense and all with the same
  share amount. The share is computed in doubles: it is what the column reads from
  \<open>(parseFloat(amount) / count).toFixed(2)\<close>, and that is the specification's rounded
  share unless \<open>amount / count\<close> lies exactly halfway between two hundredths.
\<close>

theorem equal_split_shares:
  assumes "insertSplitExpenseSchema b = Inr v"
    and "map_of b ''participants'' = Some (JString p)"
    and "pg_text (ise_payerName v)" and "pg_text (ise_description v)" and "pg_text p"
    and "length (split_str CHR '','' p) \<le> 21845"
    and "numeric_literal (ise_amount v) = Some (of_int ca / 100)" and "0 < ca" and "ca < 10 ^ 12"
    and "length (ise_amount v) \<le> 16000" and "pg_text user"
  shows "\<exists>s' r rows. post_split_expense user b s = (s', Inr r)
       \<and> splitExpenses s' = splitExpenses s @ [sr_splitExpense r]
       \<and> splitParticipants s' = splitParticipants s @ rows
       \<and> map sp_name rows = map trim (split_str CHR '','' p)
       \<and> (\<forall>row \<in> set rows.
             sp_expenseId row = se_id (sr_splitExpense r)
           \<and> (\<forall>row' \<in> set rows. sp_shareAmount row = sp_shareAmount row')
           \<and> numeric_12_2 (toFixed2 (num_div_nat (parseFloat (ise_amount v))
                  (length (split_str CHR '','' p)))) = Some (sp_shareAmount row)
           \<and> (\<not> half_cent_tie ca (length (split_str CHR '','' p))
                 \<longrightarrow> sp_shareAmount row
                       = spec_shareAmount (of_int ca / 100) (length (split_str CHR '','' p))))"
proof -
  define names where "names = map trim (split_str CHR '','' p)"
  define share where "share = toFixed2 (num_div_nat (parseFloat (ise_amount v)) (length names))"
  have n0: "0 < length names" using split_str_neq_Nil [of "CHR '',''" p] by (simp add: names_def)
  have n32: "length names < 2 ^ 32" using assms(6) by (simp add: names_def)
  obtain c where c: "0 \<le> c" "c < 10 ^ 12"
    "toFixed2 (num_div_nat (fl (of_int ca / 100)) (length names)) = cents_text c"
    "\<not> half_cent_tie ca (length names)
       \<longrightarrow> c = round_half_away (of_int ca / 100 / of_nat (length names) * 100)"
    using share_cents [OF assms(8,9) n0 n32] by blast
  have share: "share = cents_text c"
    using c(3) parseFloat_numeric_literal [OF assms(7)] by (simp add: share_def)
  have stored: "numeric_12_2 share = Some (numeric_out c)"
    using numeric_12_2_cents_text [OF c(1,2)] by (simp add: share)
  have amt: "numeric_12_2 (ise_amount v) = Some (numeric_out ca)"
    using assms(7,8,9,10) by (intro numeric_12_2_cents) simp_all
  have stored': "numeric_12_2 (toFixed2 (num_div_nat (parseFloat (ise_amount v))
            (length (map trim (split_str CHR '','' p))))) = Some (numeric_out c)"
    using stored by (simp add: share_def names_def)
  obtain s' r where ok: "post_split_expense user b s = (s', Inr r)"
    using post_split_expense_succeeds [OF assms(1) amt assms(2) stored' assms(3,4,5,6,11)] by blast
  then show ?thesis
  proof (cases rule: post_split_expense_Inr)
    case (written v' p' rows)
    have p': "p' = p" using written(2) assms(2) by simp
    have v': "v' = v" using written(1) assms(1) by simp
    have parts: "sr_participants r = map (\<lambda>name. \<lparr>isp_name = name, isp_shareAmount = share\<rparr>) names"
      using written(6) by (simp add: p' v' names_def share_def)
    have all: "list_all2 (\<lambda>name row. sp_name row = name
                 \<and> sp_expenseId row = se_id (sr_splitExpense r)
                 \<and> sp_shareAmount row = numeric_out c) names rows"
      using written(7) unfolding parts by (simp add: list_all2_map1 stored eq_commute)
    have 1: "map sp_name rows = map trim (split_str CHR '','' p)"
      unfolding names_def [symmetric] using all by (induction rule: list_all2_induct) simp_all
    have each: "sp_expenseId row = se_id (sr_splitExpense r) \<and> sp_shareAmount row = numeric_out c"
      if "row \<in> set rows" for row
      using all that by (induction rule: list_all2_induct) auto
    have spec: "numeric_out c = spec_shareAmount (of_int ca / 100) (length (split_str CHR '','' p))"
      if "\<not> half_cent_tie ca (length (split_str CHR '','' p))"
      using c(4) that by (simp add: spec_shareAmount_def names_def)
    have reading: "numeric_12_2 (toFixed2 (num_div_nat (parseFloat (ise_amount v))
                  (length (split_str CHR '','' p)))) = Some (numeric_out c)"
      using stored' by simp
    have 2: "\<forall>row \<in> set rows.
               sp_expenseId row = se_id (sr_splitExpense r)
             \<and> (\<forall>row' \<in> set rows. sp_shareAmount row = sp_shareAmount row')
             \<and> numeric_12_2 (toFixed2 (num_div_nat (parseFloat (ise_amount v))
                  (length (split_str CHR '','' p)))) = Some (sp_shareAmount row)
             \<and> (\<not> half_cent_tie ca (length (split_str CHR '','' p))
                   \<longrightarrow> sp_shareAmount row
                         = spec_shareAmount (of_int ca / 100) (length (split_str CHR '','' p)))"
    proof (intro ballI conjI impI)
      fix row assume row: "row \<in> set rows"
      show "sp_expenseId row = se_id (sr_splitExpense r)" using each [OF row] by simp
      show "sp_shareAmount row = sp_shareAmount row'" if "row' \<in> set rows" for row'
        using each [OF row] each [OF that] by simp
      show "numeric_12_2 (toFixed2 (num_div_nat (parseFloat (ise_amount v))
                  (length (split_str CHR '','' p)))) = Some (sp_shareAmount row)"
        using each [OF row] reading by simp
      show "sp_shareAmount row = spec_shareAmount (of_int ca / 100) (length (split_str CHR '','' p))"
        if "\<not> half_cent_tie ca (length (split_str CHR '','' p))"
        using each [OF row] spec [OF that] by simp
    qed
    show ?thesis
      using ok written(3) written(4) 1 2 by (intro exI conjI) assumption+
  qed
qed

lemma dinner_facts:
  "numeric_literal ''100.00'' = Some 100"
  "split_str CHR '','' ''A, B,C'' = [''A'', '' B'', ''C'']"
  "spec_shareAmount 100 3 = ''33.33''"
  "pg_text ''A''" "pg_text ''dinner''" "pg_text ''A, B,C''" "pg_text ''u1''"
  "toFixed2 (num_div_nat (parseFloat ''100.00'') 3) = ''33.33''"
  by code_simp+

lemma dinner_schema:
  "insertSplitExpenseSchema (split_body ''A'' ''100.00'' ''A, B,C'')
     = Inr \<lparr>ise_payerName = ''A'', ise_amount = ''100.00'', ise_description = ''dinner''\<rparr>"
  by code_simp

theorem equal_split_shares_witness:
  "insertSplitExpenseSchema (split_body ''A'' ''100.00'' ''A, B,C'')
     = Inr \<lparr>ise_payerName = ''A'', ise_amount = ''100.00'', ise_description = ''dinner''\<rparr>
   \<and> numeric_literal ''100.00'' = Some 100
   \<and> \<not> half_cent_tie 10000 3
   \<and> fst (post_split_expense ''u1'' (split_body ''A'' ''100.00'' ''A, B,C'') empty_db) = dinner_db
   \<and> map sp_name (splitParticipants dinner_db) = [''A'', ''B'', ''C'']
   \<and> map sp_expenseId (splitParticipants dinner_db) = [''id-0'', ''id-0'', ''id-0'']
   \<and> map sp_shareAmount (splitParticipants dinner_db)
       = [spec_shareAmount 100 3, spec_shareAmount 100 3, spec_shareAmount 100 3]
   \<and> spec_shareAmount 100 3 = ''33.33''
   \<and> toFixed2 (num_div_nat (parseFloat ''100.00'') 3) = ''33.33''"
proof -
  have tie: "\<not> half_cent_tie 10000 3" by (simp add: half_cent_tie_def)
  let ?v = "\<lparr>ise_payerName = ''A'', ise_amount = ''100.00'', ise_description = ''dinner''\<rparr>"
  have lit: "numeric_literal (ise_amount ?v) = Some (rat_of_int 10000 / 100)"
    by (simp add: dinner_facts)
  have len: "length (split_str CHR '','' ''A, B,C'') = 3" by (simp add: dinner_facts)
  have p: "map_of (split_body ''A'' ''100.00'' ''A, B,C'') ''participants'' = Some (JString ''A, B,C'')"
    by (simp add: split_body_def)
  have txt1: "pg_text (ise_payerName ?v)" and txt2: "pg_text (ise_description ?v)"
    by (simp_all add: dinner_facts)
  have few: "length (split_str CHR '','' ''A, B,C'') \<le> 21845" by (simp add: len)
  have short: "length (ise_amount ?v) \<le> 16000" by simp
  obtain s' r rows where t:
    "post_split_expense ''u1'' (split_body ''A'' ''100.00'' ''A, B,C'') empty_db = (s', Inr r)"
    "splitParticipants s' = splitParticipants empty_db @ rows"
    "\<forall>row \<in> set rows. sp_expenseId row = se_id (sr_splitExpense r)
         \<and> (\<not> half_cent_tie 10000 3
               \<longrightarrow> sp_shareAmount row = spec_shareAmount (rat_of_int 10000 / 100) 3)"
    using equal_split_shares [OF dinner_schema p txt1 txt2 dinner_facts(6) few lit _ _ short
        dinner_facts(7), of empty_db, unfolded len]
    by auto
  have s': "s' = dinner_db" and r: "r = dinner_response" using t(1) dinner_split by simp_all
  have rows: "rows = splitParticipants dinner_db" using t(2) by (simp add: s' empty_db_def)
  have each: "sp_expenseId row = ''id-0'' \<and> sp_shareAmount row = spec_shareAmount 100 3"
    if row: "row \<in> set (splitParticipants dinner_db)" for row
  proof -
    from t(3) row have "sp_expenseId row = se_id (sr_splitExpense r)
         \<and> (\<not> half_cent_tie 10000 3
               \<longrightarrow> sp_shareAmount row = spec_shareAmount (rat_of_int 10000 / 100) 3)"
      unfolding rows by blast
    then show ?thesis using tie by (simp add: r dinner_response_def dinner_expense_def)
  qed
  have names: "map sp_name (splitParticipants dinner_db) = [''A'', ''B'', ''C'']"
    by (simp add: dinner_db_def dinner_shares_def)
  have ids: "map sp_expenseId (splitParticipants dinner_db)
               = map (\<lambda>row. ''id-0'') (splitParticipants dinner_db)"
    and shares: "map sp_shareAmount (splitParticipants dinner_db)
               = map (\<lambda>row. spec_shareAmount 100 3) (splitParticipants dinner_db)"
    using each by (simp_all only: map_eq_conv) simp_all
  have three: "map f (splitParticipants dinner_db) = [f (dinner_shares ! 0), f (dinner_shares ! 1), f (dinner_shares ! 2)]" for f :: "split_participant \<Rightarrow> string"
    by (simp add: dinner_db_def dinner_shares_def)
  have 1: "map sp_expenseId (splitParticipants dinner_db) = [''id-0'', ''id-0'', ''id-0'']"
    using ids unfolding three by simp
  have 2: "map sp_shareAmount (splitParticipants dinner_db)
       = [spec_shareAmount 100 3, spec_shareAmount 100 3, spec_shareAmount 100 3]"
    using shares unfolding three by simp
  show ?thesis
    using dinner_schema dinner_facts(1) tie dinner_split names 1 2 dinner_facts(3,8)
    by (intro conjI) simp_all
qed

text \<open>
  The claim as stated fails on such a tie: 0.03 split between two participants is 0.015
  each, which rounds to 0.02; the double nearest to 0.015 lies below it, and the shares
  written are 0.01. (The double nearest to 0.025 lies above it: the shares of 0.05 split
  in two are 0.03.)
\<close>

theorem half_cent_share_counterexample:
  "map sp_shareAmount
     (splitParticipants (fst (post_split_expense ''u1'' (split_body ''A'' ''0.03'' ''A,B'') empty_db)))
     = [''0.01'', ''0.01'']
   \<and> numeric_literal ''0.03'' = Some (3 / 100)
   \<and> spec_shareAmount (3 / 100) 2 = ''0.02''
   \<and> map sp_shareAmount
     (splitParticipants (fst (post_split_expense ''u1'' (split_body ''A'' ''0.05'' ''A,B'') empty_db)))
     = [''0.03'', ''0.03'']"
  by code_simp

text \<open>
  C4 (a split whose participant list is empty after trimming and dropping empty entries
  fails with InvalidArgument and persists nothing): the route does not check the
  participants. Splitting a text always gives at least one piece, and empty names are
  kept: for the empty and for a blank participants text the call returns a result, and the
  expense and one share with the empty name are written. The expense is written before the
  participants are looked at: a request without participants throws after the expense is
  stored.
\<close>

theorem empty_participants_written:
  "fst (post_split_expense ''u1'' (split_body ''A'' ''10.00'' []) empty_db)
     = \<lparr>bankAccounts = [], transactions = [],
        splitExpenses = [dinner_expense\<lparr>se_amount := ''10.00''\<rparr>],
        splitParticipants =
          [\<lparr>sp_id = ''id-1'', sp_expenseId = ''id-0'', sp_name = [], sp_shareAmount = ''10.00''\<rparr>],
        next_uuid = 2, clock = 0\<rparr>
   \<and> isl (snd (post_split_expense ''u1'' (split_body ''A'' ''10.00'' []) empty_db)) = False
   \<and> fst (post_split_expense ''u1'' (split_body ''A'' ''10.00'' ''   '') empty_db)
     = \<lparr>bankAccounts = [], transactions = [],
        splitExpenses = [dinner_expense\<lparr>se_amount := ''10.00''\<rparr>],
        splitParticipants =
          [\<lparr>sp_id = ''id-1'', sp_expenseId = ''id-0'', sp_name = [], sp_shareAmount = ''10.00''\<rparr>],
        next_uuid = 2, clock = 0\<rparr>
   \<and> isl (snd (post_split_expense ''u1'' (split_body ''A'' ''10.00'' ''   '') empty_db)) = False
   \<and> post_split_expense ''u1''
        [(''payerName'', JString ''A''), (''amount'', JString ''10.00''),
         (''description'', JString ''dinner'')] empty_db
     = (\<lparr>bankAccounts = [], transactions = [],
         splitExpenses = [dinner_expense\<lparr>se_amount := ''10.00''\<rparr>],
         splitParticipants = [], next_uuid = 1, clock = 0\<rparr>, Inl TypeError)"
  by code_simp

text \<open>
  C5 (a non-positive or malformed amount makes \<open>addTransaction\<close> fail with InvalidArgument
  before any write): the schema takes any string as an amount and nothing checks its sign.
  What does fail before any write is a request without an amount, with an amount that is
  not a string, or with an amount that the decimal column does not read: the call returns
  an error and the database is unchanged. What the column reads is more than plain
  decimals: it takes \<^verbatim>\<open>0x10\<close> for 16 and \<^verbatim>\<open>1_000\<close> for 1000.
\<close>

theorem unreadable_amount_rejected:
  assumes "\<forall>m. map_of b ''amount'' = Some (JString m) \<longrightarrow> numeric_12_2 m = None"
  shows "\<exists>e. post_transactions user b s = (s, Inl e)"
proof (cases "insertTransactionSchema b")
  case (Inl e)
  then show ?thesis by (simp add: post_transactions_def)
next
  case (Inr t)
  then have "map_of b ''amount'' = Some (JString (it_amount t))"
    by (auto simp: insertTransactionSchema_def split: option.splits elim: z_string.elims)
  then have "numeric_12_2 (it_amount t) = None" using assms by simp
  then have "insert_transaction_row t s = (s, Inl DbError)"
    by (simp add: insert_transaction_row_def split: option.splits)
  then have "createTransaction t s = (s, Inl DbError)" by (simp add: createTransaction_def)
  then show ?thesis
    using Inr by (simp add: post_transactions_def split: sum.splits option.splits)
qed

lemma unreadable_amount: "numeric_12_2 ''abc'' = None"
  by code_simp

lemma other_notations:
  "numeric_12_2 ''0x10'' = Some ''16.00''"
  "numeric_12_2 ''0o17'' = Some ''15.00''"
  "numeric_12_2 ''0b11'' = Some ''3.00''"
  "numeric_12_2 ''1_000'' = Some ''1000.00''"
  "numeric_12_2 ''1e-16384'' = None"
  by code_simp+

theorem unreadable_amount_rejected_witness:
  "numeric_12_2 ''abc'' = None
   \<and> fst (post_transactions ''u1'' (tx_body ''id-0'' ''abc'' ''credit'') account_db) = account_db
   \<and> isl (snd (post_transactions ''u1'' (tx_body ''id-0'' ''abc'' ''credit'') account_db))"
proof -
  have "\<forall>m. map_of (tx_body ''id-0'' ''abc'' ''credit'') ''amount'' = Some (JString m)
          \<longrightarrow> numeric_12_2 m = None"
    by (simp add: tx_body_def unreadable_amount)
  then obtain e where
    "post_transactions ''u1'' (tx_body ''id-0'' ''abc'' ''credit'') account_db = (account_db, Inl e)"
    using unreadable_amount_rejected by blast
  then show ?thesis by (simp add: unreadable_amount)
qed

text \<open>
  The claim as stated fails for the amounts it names: a credit of -5.00 is stored and lowers
  the balance from 0.00 to -5.00, and a credit of 0 is stored as a transaction of 0.00.
\<close>

theorem nonpositive_amount_counterexample:
  "post_transactions ''u1'' (tx_body ''id-0'' ''-5.00'' ''credit'') account_db
     = (\<lparr>bankAccounts = [main_account ''-5.00''], transactions = [salary_row ''-5.00''],
         splitExpenses = [], splitParticipants = [], next_uuid = 2, clock = 0\<rparr>,
        Inr (salary_row ''-5.00''))
   \<and> post_transactions ''u1'' (tx_body ''id-0'' ''0'' ''credit'') account_db
     = (\<lparr>bankAccounts = [main_account ''0.00''], transactions = [salary_row ''0.00''],
         splitExpenses = [], splitParticipants = [], next_uuid = 2, clock = 0\<rparr>,
        Inr (salary_row ''0.00''))"
  by code_simp

text \<open>
  C6 (persisted money is decimal text with exactly two fractional digits, derived without a
  binary floating-point intermediate; 12.50 is reloaded as 12.50): the text with two
  fractional digits is the work of the column, and balances and shares are derived in
  doubles. What every route stores in a decimal column is what the column reads from the
  text that the route hands to it:

  \<^item> for a new account the balance of the request, or 0;
  \<^item> for a transaction its amount as the request gives it, and for the balance of its
    account \<open>toString\<close> of the double sum or difference of \<open>parseFloat\<close> of the stored
    balance and \<open>parseFloat\<close> of the amount;
  \<^item> for a split the amount as the request gives it, and for every share \<open>toFixed(2)\<close> of
    the double quotient of \<open>parseFloat\<close> of the amount by the number of names;
  \<^item> for an updated expense the amount as the request gives it.

  What the column reads is text with exactly two fractional digits or NaN, and reading
  that text again gives the same text. So a database whose decimal columns hold such text
  keeps them so under every route.
\<close>

theorem persisted_money_text:
  assumes "money_columns s"
  shows "money_columns (fst (post_accounts user b s))
       \<and> money_columns (fst (post_transactions user b s))
       \<and> money_columns (fst (delete_transactions user ident s))
       \<and> money_columns (fst (post_split_expense user b s))
       \<and> money_columns (fst (put_split_history user ident b s))
       \<and> money_columns (fst (delete_split_history user ident s))
       \<and> (\<forall>t r. numeric_12_2 t = Some r
             \<longrightarrow> (r = ''NaN'' \<or> fixed2 r) \<and> numeric_12_2 r = Some r)
       \<and> (\<forall>s' a. post_accounts user b s = (s', Inr a) \<longrightarrow>
             (\<exists>v. insertBankAccountSchema b = Inr v
                \<and> numeric_12_2 (case iba_balance v of None \<Rightarrow> ''0'' | Some t \<Rightarrow> t)
                    = Some (ba_balance a)
                \<and> bankAccounts s' = bankAccounts s @ [a]))
       \<and> (\<forall>s' row. post_transactions user b s = (s', Inr row) \<longrightarrow>
             (\<exists>t a bal. insertTransactionSchema b = Inr t
                \<and> getBankAccount (it_accountId t) s = Inr (Some a)
                \<and> numeric_12_2 (it_amount t) = Some (tx_amount row)
                \<and> transactions s' = transactions s @ [row]
                \<and> numeric_12_2
                     (toString
                        (if it_type t = ''credit''
                         then num_add (parseFloat (ba_balance a)) (parseFloat (it_amount t))
                         else num_sub (parseFloat (ba_balance a)) (parseFloat (it_amount t))))
                    = Some bal
                \<and> bankAccounts s' =
                    map (\<lambda>x. if ba_id x = it_accountId t then x\<lparr>ba_balance := bal\<rparr> else x)
                      (bankAccounts s)))
       \<and> (\<forall>s' r. post_split_expense user b s = (s', Inr r) \<longrightarrow>
             (\<exists>v p. insertSplitExpenseSchema b = Inr v
                \<and> map_of b ''participants'' = Some (JString p)
                \<and> numeric_12_2 (ise_amount v) = Some (se_amount (sr_splitExpense r))
                \<and> splitExpenses s' = splitExpenses s @ [sr_splitExpense r]
                \<and> (\<forall>row \<in> set (drop (length (splitParticipants s)) (splitParticipants s')).
                      numeric_12_2 (toFixed2 (num_div_nat (parseFloat (ise_amount v))
                          (length (split_str CHR '','' p)))) = Some (sp_shareAmount row))))
       \<and> (\<forall>s' m. put_split_history user ident b s = (s', Inr ())
                \<and> map_of b ''amount'' = Some (JString m) \<longrightarrow>
             (\<forall>e \<in> set (splitExpenses s'). se_id e = ident \<longrightarrow>
                numeric_12_2 m = Some (se_amount e)))"
proof -
  have 1: "money_columns (fst (post_accounts user b s))"
    using assms createBankAccount_money [OF assms]
    by (simp add: post_accounts_def split: sum.splits)
  have 2: "money_columns (fst (post_transactions user b s))"
    using assms createTransaction_money [OF assms]
    by (simp add: post_transactions_def split: sum.splits option.splits)
  have 3: "money_columns (fst (delete_transactions user ident s))"
    using assms
    by (auto simp: delete_transactions_def deleteTransaction_def money_columns_def list_all_iff)
  have 4: "money_columns (fst (post_split_expense user b s))"
    using assms by (rule post_split_expense_money)
  have 5: "money_columns (fst (put_split_history user ident b s))"
    using assms updateSplitExpense_money [OF assms]
    by (simp add: put_split_history_def split: sum.splits)
  have 6: "money_columns (fst (delete_split_history user ident s))"
    using assms
    by (auto simp: delete_split_history_def deleteSplitExpense_def money_columns_def list_all_iff)
  have 7: "\<forall>t r. numeric_12_2 t = Some r
             \<longrightarrow> (r = ''NaN'' \<or> fixed2 r) \<and> numeric_12_2 r = Some r"
    using numeric_12_2_fixed by blast
  have 8: "\<forall>s' a. post_accounts user b s = (s', Inr a) \<longrightarrow>
             (\<exists>v. insertBankAccountSchema b = Inr v
                \<and> numeric_12_2 (case iba_balance v of None \<Rightarrow> ''0'' | Some t \<Rightarrow> t)
                    = Some (ba_balance a)
                \<and> bankAccounts s' = bankAccounts s @ [a])"
    using post_accounts_Inr by blast
  have 9: "\<forall>s' row. post_transactions user b s = (s', Inr row) \<longrightarrow>
             (\<exists>t a bal. insertTransactionSchema b = Inr t
                \<and> getBankAccount (it_accountId t) s = Inr (Some a)
                \<and> numeric_12_2 (it_amount t) = Some (tx_amount row)
                \<and> transactions s' = transactions s @ [row]
                \<and> numeric_12_2
                     (toString
                        (if it_type t = ''credit''
                         then num_add (parseFloat (ba_balance a)) (parseFloat (it_amount t))
                         else num_sub (parseFloat (ba_balance a)) (parseFloat (it_amount t))))
                    = Some bal
                \<and> bankAccounts s' =
                    map (\<lambda>x. if ba_id x = it_accountId t then x\<lparr>ba_balance := bal\<rparr> else x)
                      (bankAccounts s))"
  proof (intro allI impI)
    fix s' row
    assume "post_transactions user b s = (s', Inr row)"
    then obtain t a bal where
      "insertTransactionSchema b = Inr t \<and> getBankAccount (it_accountId t) s = Inr (Some a)
       \<and> numeric_12_2 (it_amount t) = Some (tx_amount row)
       \<and> transactions s' = transactions s @ [row]
       \<and> numeric_12_2 (toString (newBalance a t)) = Some bal
       \<and> bankAccounts s' =
           map (\<lambda>x. if ba_id x = it_accountId t then x\<lparr>ba_balance := bal\<rparr> else x)
             (bankAccounts s)"
      using post_transactions_Inr by blast
    moreover have "newBalance a t =
        (if it_type t = ''credit''
         then num_add (parseFloat (ba_balance a)) (parseFloat (it_amount t))
         else num_sub (parseFloat (ba_balance a)) (parseFloat (it_amount t)))"
      by (simp add: newBalance_def)
    ultimately show "\<exists>t a bal. insertTransactionSchema b = Inr t
                \<and> getBankAccount (it_accountId t) s = Inr (Some a)
                \<and> numeric_12_2 (it_amount t) = Some (tx_amount row)
                \<and> transactions s' = transactions s @ [row]
                \<and> numeric_12_2
                     (toString
                        (if it_type t = ''credit''
                         then num_add (parseFloat (ba_balance a)) (parseFloat (it_amount t))
                         else num_sub (parseFloat (ba_balance a)) (parseFloat (it_amount t))))
                    = Some bal
                \<and> bankAccounts s' =
                    map (\<lambda>x. if ba_id x = it_accountId t then x\<lparr>ba_balance := bal\<rparr> else x)
                      (bankAccounts s)"
      by (intro exI [of _ t] exI [of _ a] exI [of _ bal]) simp
  qed
  have 10: "\<forall>s' r. post_split_expense user b s = (s', Inr r) \<longrightarrow>
             (\<exists>v p. insertSplitExpenseSchema b = Inr v
                \<and> map_of b ''participants'' = Some (JString p)
                \<and> numeric_12_2 (ise_amount v) = Some (se_amount (sr_splitExpense r))
                \<and> splitExpenses s' = splitExpenses s @ [sr_splitExpense r]
                \<and> (\<forall>row \<in> set (drop (length (splitParticipants s)) (splitParticipants s')).
                      numeric_12_2 (toFixed2 (num_div_nat (parseFloat (ise_amount v))
                          (length (split_str CHR '','' p)))) = Some (sp_shareAmount row)))"
  proof (intro allI impI)
    fix s' r
    assume "post_split_expense user b s = (s', Inr r)"
    then show "\<exists>v p. insertSplitExpenseSchema b = Inr v
                \<and> map_of b ''participants'' = Some (JString p)
                \<and> numeric_12_2 (ise_amount v) = Some (se_amount (sr_splitExpense r))
                \<and> splitExpenses s' = splitExpenses s @ [sr_splitExpense r]
                \<and> (\<forall>row \<in> set (drop (length (splitParticipants s)) (splitParticipants s')).
                      numeric_12_2 (toFixed2 (num_div_nat (parseFloat (ise_amount v))
                          (length (split_str CHR '','' p)))) = Some (sp_shareAmount row))"
    proof (cases rule: post_split_expense_Inr)
      case (written v p rows)
      define share where "share = toFixed2 (num_div_nat (parseFloat (ise_amount v))
          (length (split_str CHR '','' p)))"
      have "list_all2 (\<lambda>q row. numeric_12_2 (isp_shareAmount q) = Some (sp_shareAmount row))
              (sr_participants r) rows"
        by (rule list_all2_mono [OF written(7)]) simp
      then have "list_all2 (\<lambda>q row. numeric_12_2 share = Some (sp_shareAmount row))
              (split_str CHR '','' p) rows"
        unfolding written(6) by (simp add: list_all2_map1 share_def)
      then have "\<forall>row \<in> set rows. numeric_12_2 share = Some (sp_shareAmount row)"
        by (induction rule: list_all2_induct) simp_all
      then have "\<forall>row \<in> set (drop (length (splitParticipants s)) (splitParticipants s')).
          numeric_12_2 share = Some (sp_shareAmount row)"
        using written(4) by simp
      then show ?thesis
        using written(1,2,3,9) unfolding share_def
        by (intro exI [of _ v] exI [of _ p] conjI) assumption+
    qed
  qed
  have 11: "\<forall>s' m. put_split_history user ident b s = (s', Inr ())
                \<and> map_of b ''amount'' = Some (JString m) \<longrightarrow>
             (\<forall>e \<in> set (splitExpenses s'). se_id e = ident \<longrightarrow>
                numeric_12_2 m = Some (se_amount e))"
    using put_split_history_amount by blast
  show ?thesis
    using 1 2 3 4 5 6 7 8 9 10 11 by (intro conjI) assumption+
qed

lemma column_examples:
  "money_columns account_db"
  "numeric_12_2 ''12.5'' = Some ''12.50''"
  "numeric_12_2 ''12.50'' = Some ''12.50''"
  "fixed2 ''12.50''"
  "post_transactions ''u1'' (tx_body ''id-0'' ''12.5'' ''credit'') account_db
     = (\<lparr>bankAccounts = [main_account ''12.50''], transactions = [salary_row ''12.50''],
         splitExpenses = [], splitParticipants = [], next_uuid = 2, clock = 0\<rparr>,
        Inr (salary_row ''12.50''))"
  "toString (num_add (parseFloat ''0.00'') (parseFloat ''12.5'')) = ''12.5''"
  by code_simp+

theorem persisted_money_text_witness:
  "money_columns account_db
   \<and> post_transactions ''u1'' (tx_body ''id-0'' ''12.5'' ''credit'') account_db
     = (\<lparr>bankAccounts = [main_account ''12.50''], transactions = [salary_row ''12.50''],
         splitExpenses = [], splitParticipants = [], next_uuid = 2, clock = 0\<rparr>,
        Inr (salary_row ''12.50''))
   \<and> money_columns \<lparr>bankAccounts = [main_account ''12.50''], transactions = [salary_row ''12.50''],
         splitExpenses = [], splitParticipants = [], next_uuid = 2, clock = 0\<rparr>
   \<and> toString (num_add (parseFloat ''0.00'') (parseFloat ''12.5'')) = ''12.5''
   \<and> numeric_12_2 ''12.5'' = Some ''12.50'' \<and> fixed2 ''12.50''
   \<and> numeric_12_2 ''12.50'' = Some ''12.50''"
proof -
  have "money_columns (fst (post_transactions ''u1'' (tx_body ''id-0'' ''12.5'' ''credit'') account_db))"
    using persisted_money_text [OF column_examples(1),
        of "''u1''" "tx_body ''id-0'' ''12.5'' ''credit''" "''id-1''"]
    by blast
  then have "money_columns \<lparr>bankAccounts = [main_account ''12.50''],
      transactions = [salary_row ''12.50''],
      splitExpenses = [], splitParticipants = [], next_uuid = 2, clock = 0\<rparr>"
    by (simp add: column_examples(5))
  then show ?thesis using column_examples by (intro conjI) assumption+
qed

text \<open>
  The claim as stated fails on the derivation: the balance is derived through doubles. For
  a balance of 12.50 and a credit of 0.00 the text that \<open>createTransaction\<close> hands to the
  column is 12.5, and for a balance of 0.10 and a credit of 0.20 it is
  0.30000000000000004; the column stores 12.50 and 0.30. And the column holds NaN: a
  credit of NaN is stored with that amount and makes the balance NaN.
\<close>

theorem balance_through_doubles:
  "toString (newBalance (main_account ''12.50'')
      \<lparr>it_accountId = ''id-0'', it_amount = ''0.00'', it_type = ''credit'',
       it_description = ''salary''\<rparr>) = ''12.5''
   \<and> toString (newBalance (main_account ''0.10'')
      \<lparr>it_accountId = ''id-0'', it_amount = ''0.20'', it_type = ''credit'',
       it_description = ''salary''\<rparr>) = ''0.30000000000000004''
   \<and> numeric_12_2 ''0.30000000000000004'' = Some ''0.30''
   \<and> post_transactions ''u1'' (tx_body ''id-0'' ''NaN'' ''credit'') account_db
     = (\<lparr>bankAccounts = [main_account ''NaN''], transactions = [salary_row ''NaN''],
         splitExpenses = [], splitParticipants = [], next_uuid = 2, clock = 0\<rparr>,
        Inr (salary_row ''NaN''))"
  by code_simp

text \<open>
  C8 (an operation on an entity that the acting principal does not own signals
  PermissionDenied and writes nothing): the routes that delete a transaction and that
  update or delete a split expense never look at the owner. User u2 deletes the
  transaction of the account of u1, changes the amount of the expense of u1, and deletes
  it with its shares; each call succeeds. The route that posts a transaction does check
  the owner of the account.
\<close>

theorem foreign_entities_written:
  "ba_userId (main_account ''10.00'') = ''u1'' \<and> se_userId dinner_expense = ''u1''
   \<and> delete_transactions ''u2'' ''id-1'' ledger_db
       = (\<lparr>bankAccounts = [main_account ''10.00''], transactions = [],
           splitExpenses = [], splitParticipants = [], next_uuid = 2, clock = 0\<rparr>, Inr ())
   \<and> put_split_history ''u2'' ''id-0'' [(''amount'', JString ''1.00'')] dinner_db
       = (\<lparr>bankAccounts = [], transactions = [],
           splitExpenses = [dinner_expense\<lparr>se_amount := ''1.00''\<rparr>],
           splitParticipants = dinner_shares, next_uuid = 4, clock = 0\<rparr>, Inr ())
   \<and> delete_split_history ''u2'' ''id-0'' dinner_db
       = (\<lparr>bankAccounts = [], transactions = [], splitExpenses = [],
           splitParticipants = [], next_uuid = 4, clock = 0\<rparr>, Inr ())
   \<and> post_transactions ''u2'' (tx_body ''id-0'' ''10.00'' ''credit'') ledger_db
       = (ledger_db, Inl Forbidden)"
  by code_simp

text \<open>
  C9 (\<open>updateSplit\<close> changes only the supplied fields among amount, description and payer
  name, and no participant share): whatever the outcome of the call, the participant rows
  are the same, every expense keeps its identifier, owner and dates, an expense with
  another identifier or a field that the body does not supply keeps its value, and after
  a successful call the supplied fields of the expense hold the supplied values (the
  amount as the column writes it).
\<close>

theorem updateSplit_frame:
  assumes "put_split_history user ident b s = (s', r)"
  shows "splitParticipants s' = splitParticipants s
       \<and> list_all2 (\<lambda>e e'.
            se_id e' = se_id e \<and> se_userId e' = se_userId e \<and> se_date e' = se_date e
          \<and> se_createdAt e' = se_createdAt e
          \<and> (se_id e \<noteq> ident \<or> map_of b ''payerName'' = None \<longrightarrow> se_payerName e' = se_payerName e)
          \<and> (se_id e \<noteq> ident \<or> map_of b ''amount'' = None \<longrightarrow> se_amount e' = se_amount e)
          \<and> (se_id e \<noteq> ident \<or> map_of b ''description'' = None
                \<longrightarrow> se_description e' = se_description e)
          \<and> (r = Inr () \<and> se_id e = ident \<longrightarrow>
                (\<forall>p. map_of b ''payerName'' = Some (JString p) \<longrightarrow> se_payerName e' = p)
              \<and> (\<forall>m. map_of b ''amount'' = Some (JString m)
                     \<longrightarrow> numeric_12_2 m = Some (se_amount e'))
              \<and> (\<forall>d. map_of b ''description'' = Some (JString d) \<longrightarrow> se_description e' = d)))
          (splitExpenses s) (splitExpenses s')"
proof (cases "insertSplitExpenseSchema_partial b")
  case (Inl e)
  then have "s' = s" using assms by (simp add: put_split_history_def)
  moreover have "r = Inl e" using assms Inl by (simp add: put_split_history_def)
  ultimately show ?thesis by (simp add: list_all2_same)
next
  case (Inr v)
  then have u: "updateSplitExpense ident v s = (s', r)"
    using assms by (simp add: put_split_history_def)
  show ?thesis
    using updateSplitExpense_frame(1) [OF u] updateSplitExpense_frame(4) [OF u]
    unfolding partial_schema_Inr [OF Inr] by simp
qed

lemma dinner_update:
  "put_split_history ''u1'' ''id-0'' [(''amount'', JString ''250'')] dinner_db
     = (dinner_db\<lparr>splitExpenses := [dinner_expense\<lparr>se_amount := ''250.00''\<rparr>]\<rparr>, Inr ())"
  by code_simp

theorem updateSplit_frame_witness:
  "put_split_history ''u1'' ''id-0'' [(''amount'', JString ''250'')] dinner_db
     = (dinner_db\<lparr>splitExpenses := [dinner_expense\<lparr>se_amount := ''250.00''\<rparr>]\<rparr>, Inr ())
   \<and> splitParticipants (dinner_db\<lparr>splitExpenses := [dinner_expense\<lparr>se_amount := ''250.00''\<rparr>]\<rparr>)
       = splitParticipants dinner_db
   \<and> map se_payerName (splitExpenses (dinner_db\<lparr>splitExpenses := [dinner_expense\<lparr>se_amount := ''250.00''\<rparr>]\<rparr>))
       = map se_payerName (splitExpenses dinner_db)
   \<and> map sp_shareAmount (splitParticipants dinner_db) = [''33.33'', ''33.33'', ''33.33'']"
  using updateSplit_frame [OF dinner_update] dinner_update
  by (simp add: dinner_db_def dinner_shares_def)

end
